theory Spec2Isabelle
  imports Main
begin

section \<open>Values, errors and the session record\<close>

text \<open>
  Embedding of \<^verbatim>\<open>src/index.ts\<close> (class \<^verbatim>\<open>ValkeyStore\<close>, helper \<^verbatim>\<open>optionalCb\<close>).

  JavaScript numbers that carry milliseconds, seconds and counts are modelled as \<open>int\<close>.
  The model is that of the safe integers (magnitude below \<open>2 ^ 53\<close>), on which the
  arithmetic of the source is exact and \<open>Math.floor (a / 1000)\<close> is \<open>a div 1000\<close> (both
  round towards minus infinity); \<open>NaN\<close> (the time of an invalid date), fractions and
  larger magnitudes are outside the model. Strings are \<open>string\<close>, one \<open>char\<close> per
  code unit.
\<close>

text \<open>A thrown or rejected JavaScript error: its class and its message.\<close>

datatype error = TypeError string | Error string

text \<open>The value passed where the source declares \<^verbatim>\<open>sid: string\<close>; callers can pass anything.\<close>

datatype jsid = SStr string | SNull | SUndefined | SNum int

text \<open>The second argument of an error-first callback, and the value a promise resolves with.\<close>

datatype 'a jsv = Undefined | Null | Val 'a

text \<open>\<^verbatim>\<open>cookie.expires\<close> is a \<^verbatim>\<open>Date\<close> (given by its \<^verbatim>\<open>getTime()\<close>) or a string.\<close>

datatype expires_field = ExpDate int | ExpString string

record Cookie =
  expires :: "expires_field option"
  maxAge :: "int option"

record 'p SessionData =
  cookie :: "Cookie option"
  payload :: 'p

text \<open>What \<^verbatim>\<open>serializer.parse\<close> does: returns, throws, or returns a promise (settled later).\<close>

datatype 's parse_result = Parsed 's | ParseThrows error | ParsePromise "error + 's"

datatype 'p ttl_option = TtlNumber int | TtlFunction "'p SessionData \<Rightarrow> int"

text \<open>
  The fields of a constructed \<^verbatim>\<open>ValkeyStore\<close>, the client apart, and the one piece of
  the state inherited from \<^verbatim>\<open>EventEmitter\<close> (through \<^verbatim>\<open>Store\<close>) that the class reads:
  whether a listener for \<^verbatim>\<open>"error"\<close> is registered on the store
  (\<^verbatim>\<open>store.on('error', ...)\<close>). The constructor registers none.
\<close>

record 'p ValkeyStore =
  prefix :: string
  ttl :: "'p ttl_option"
  disableTTL :: bool
  disableTouch :: bool
  logErrors :: bool
  scanCount :: nat
  stringify :: "'p SessionData \<Rightarrow> error + string"
  parse :: "string \<Rightarrow> 'p SessionData parse_result"
  error_listener :: bool

text \<open>The runtime: the value of \<^verbatim>\<open>Date.now()\<close> and \<^verbatim>\<open>new Date(s).getTime()\<close> on strings.\<close>

record runtime =
  Date_now :: int
  Date_parse :: "string \<Rightarrow> int"

section \<open>The underlying client and the observable world\<close>

datatype cursor = StringCursor string | ClusterScanCursor string bool

datatype TimeUnit = Seconds | Milliseconds

datatype expiry = Expiry TimeUnit int

text \<open>A call issued on the client: the primitive and its arguments.\<close>

datatype call =
    CGet string
  | CSet string string "expiry option"
  | CDel "string list"
  | CExpire string int
  | CMget "string list"
  | CScan cursor string nat

text \<open>
  The client is external (valkey-glide). It is a parameter: a state \<open>'c\<close> and, for each
  primitive the store uses, the settled result of the returned promise (\<open>Inl\<close> a
  rejection) with the next state. \<open>is_cluster\<close> is
  \<^verbatim>\<open>this.client instanceof GlideClusterClient\<close>.
\<close>

record 'c client =
  is_cluster :: bool
  cget :: "string \<Rightarrow> 'c \<Rightarrow> (error + string option) \<times> 'c"
  cset :: "string \<Rightarrow> string \<Rightarrow> expiry option \<Rightarrow> 'c \<Rightarrow> (error + unit) \<times> 'c"
  cdel :: "string list \<Rightarrow> 'c \<Rightarrow> (error + unit) \<times> 'c"
  cexpire :: "string \<Rightarrow> int \<Rightarrow> 'c \<Rightarrow> (error + unit) \<times> 'c"
  cmget :: "string list \<Rightarrow> 'c \<Rightarrow> (error + string option list) \<times> 'c"
  cscan :: "cursor \<Rightarrow> string \<Rightarrow> nat \<Rightarrow> 'c \<Rightarrow> (error + cursor \<times> string list) \<times> 'c"

datatype log = ConsoleError error | WarnInvalid string | WarnLarge nat

datatype 'a settlement = Resolved "'a jsv" | Rejected error

text \<open>
  Everything an operation can change or show: the client's state, the calls issued on
  the client, the \<^verbatim>\<open>"error"\<close> events the store's listener received, the console, the
  invocations of the caller's callback, the settlement of the promise the operation
  returns (\<open>None\<close> while it is pending), and the rejections of promises that nothing
  handles (Node reports each as an \<^verbatim>\<open>unhandledRejection\<close>).
\<close>

record ('c, 'a) world =
  cstate :: 'c
  calls :: "call list"
  events :: "error list"
  console :: "log list"
  cb_calls :: "(error option \<times> 'a jsv) list"
  settled :: "'a settlement option"
  unhandled :: "error list"

text \<open>
  How a piece of synchronous code ends: the world it leaves, and the exception it threw
  if it did not return. A callback is such a piece of code.
\<close>

type_synonym ('c, 'a) outcome = "error option \<times> ('c, 'a) world"

type_synonym ('c, 'a) callback = "error option \<Rightarrow> 'a jsv \<Rightarrow> ('c, 'a) world \<Rightarrow> ('c, 'a) outcome"

definition client_get :: "'c client \<Rightarrow> string \<Rightarrow> ('c, 'a) world \<Rightarrow> (error + string option) \<times> ('c, 'a) world" where
  "client_get cl k w =
     (case cget cl k (cstate w) of
        (r, c') \<Rightarrow> (r, w\<lparr>cstate := c', calls := calls w @ [CGet k]\<rparr>))"

definition client_set :: "'c client \<Rightarrow> string \<Rightarrow> string \<Rightarrow> expiry option \<Rightarrow> ('c, 'a) world \<Rightarrow> (error + unit) \<times> ('c, 'a) world" where
  "client_set cl k v opts w =
     (case cset cl k v opts (cstate w) of
        (r, c') \<Rightarrow> (r, w\<lparr>cstate := c', calls := calls w @ [CSet k v opts]\<rparr>))"

definition client_del :: "'c client \<Rightarrow> string list \<Rightarrow> ('c, 'a) world \<Rightarrow> (error + unit) \<times> ('c, 'a) world" where
  "client_del cl ks w =
     (case cdel cl ks (cstate w) of
        (r, c') \<Rightarrow> (r, w\<lparr>cstate := c', calls := calls w @ [CDel ks]\<rparr>))"

definition client_expire :: "'c client \<Rightarrow> string \<Rightarrow> int \<Rightarrow> ('c, 'a) world \<Rightarrow> (error + unit) \<times> ('c, 'a) world" where
  "client_expire cl k n w =
     (case cexpire cl k n (cstate w) of
        (r, c') \<Rightarrow> (r, w\<lparr>cstate := c', calls := calls w @ [CExpire k n]\<rparr>))"

definition client_mget :: "'c client \<Rightarrow> string list \<Rightarrow> ('c, 'a) world \<Rightarrow> (error + string option list) \<times> ('c, 'a) world" where
  "client_mget cl ks w =
     (case cmget cl ks (cstate w) of
        (r, c') \<Rightarrow> (r, w\<lparr>cstate := c', calls := calls w @ [CMget ks]\<rparr>))"

definition client_scan :: "'c client \<Rightarrow> cursor \<Rightarrow> string \<Rightarrow> nat \<Rightarrow> ('c, 'a) world \<Rightarrow> (error + cursor \<times> string list) \<times> ('c, 'a) world" where
  "client_scan cl cur pat n w =
     (case cscan cl cur pat n (cstate w) of
        (r, c') \<Rightarrow> (r, w\<lparr>cstate := c', calls := calls w @ [CScan cur pat n]\<rparr>))"

section \<open>Promises, events and the dual calling convention\<close>

text \<open>\<^verbatim>\<open>resolve\<close> and \<^verbatim>\<open>reject\<close>: a promise settles once; later settlements are ignored.\<close>

definition settle :: "'a settlement \<Rightarrow> ('c, 'a) world \<Rightarrow> ('c, 'a) world" where
  "settle s w = (case settled w of None \<Rightarrow> w\<lparr>settled := Some s\<rparr> | Some _ \<Rightarrow> w)"

text \<open>
  \<^verbatim>\<open>this.emit('error', e)\<close> on the store, an \<^verbatim>\<open>EventEmitter\<close>: with a listener
  registered the listener receives the event (and is taken to return); with none,
  \<^verbatim>\<open>emit\<close> throws \<open>e\<close>, an \<^verbatim>\<open>Error\<close> instance.
\<close>

definition emit :: "'p ValkeyStore \<Rightarrow> error \<Rightarrow> ('c, 'a) world \<Rightarrow> ('c, 'a) outcome" where
  "emit st e w = (if error_listener st then (None, w\<lparr>events := events w @ [e]\<rparr>) else (Some e, w))"

definition console_log :: "log \<Rightarrow> ('c, 'a) world \<Rightarrow> ('c, 'a) world" where
  "console_log l w = w\<lparr>console := console w @ [l]\<rparr>"

text \<open>A promise that is dropped: if it rejects, the rejection is unhandled.\<close>

definition dropped :: "('c, 'a) outcome \<Rightarrow> ('c, 'a) world" where
  "dropped r = (case r of (None, w) \<Rightarrow> w | (Some e, w) \<Rightarrow> w\<lparr>unhandled := unhandled w @ [e]\<rparr>)"

text \<open>
  The callback that \<^verbatim>\<open>optionalCb\<close> hands to \<open>fn\<close> inside the promise executor: on an
  error it emits on \<open>errorEmitter\<close> (given by its \<^verbatim>\<open>emit\<close>), if there is one, and
  rejects; otherwise it resolves. An exception out of \<^verbatim>\<open>emit\<close> leaves it before
  \<^verbatim>\<open>reject\<close>.
\<close>

definition promise_cb ::
  "(error \<Rightarrow> ('c, 'a) world \<Rightarrow> ('c, 'a) outcome) option \<Rightarrow> ('c, 'a) callback" where
  "promise_cb errorEmitter err data w =
     (case err of
        Some e \<Rightarrow>
          (case (case errorEmitter of Some em \<Rightarrow> em e w | None \<Rightarrow> (None, w)) of
             (Some x, w') \<Rightarrow> (Some x, w')
           | (None, w') \<Rightarrow> (None, settle (Rejected e) w'))
      | None \<Rightarrow> (None, settle (Resolved data) w))"

text \<open>
  \<^verbatim>\<open>optionalCb(fn, cb, errorEmitter)\<close> inside an \<^verbatim>\<open>async\<close> method. \<open>fn\<close> takes the
  callback and the world and returns \<open>None\<close> if it never returns, otherwise whether it
  threw (\<open>Some e\<close>) and the world it left. Without \<open>cb\<close> the promise executor runs \<open>fn\<close>
  on the callback above; an exception out of the executor rejects the promise. With
  \<open>cb\<close>, \<open>fn cb\<close> runs directly; an exception leaves the \<^verbatim>\<open>async\<close> method, whose
  promise rejects, and a normal return resolves it with \<^verbatim>\<open>undefined\<close>.
\<close>

definition optionalCb ::
  "(('c, 'a) callback \<Rightarrow> ('c, 'a) world \<Rightarrow> ('c, 'a) outcome option) \<Rightarrow>
   ('c, 'a) callback option \<Rightarrow> (error \<Rightarrow> ('c, 'a) world \<Rightarrow> ('c, 'a) outcome) option \<Rightarrow>
   ('c, 'a) world \<Rightarrow> ('c, 'a) world option" where
  "optionalCb fn cb errorEmitter w =
     (case cb of
        None \<Rightarrow>
          (case fn (promise_cb errorEmitter) w of
             None \<Rightarrow> None
           | Some (Some e, w') \<Rightarrow> Some (settle (Rejected e) w')
           | Some (None, w') \<Rightarrow> Some w')
      | Some f \<Rightarrow>
          (case fn f w of
             None \<Rightarrow> None
           | Some (Some e, w') \<Rightarrow> Some (settle (Rejected e) w')
           | Some (None, w') \<Rightarrow> Some (settle (Resolved Undefined) w')))"

section \<open>Key codec, error handler, TTL\<close>

definition key :: "'p ValkeyStore \<Rightarrow> jsid \<Rightarrow> error + string" where
  "key st sid =
     (case sid of
        SStr s \<Rightarrow>
          if s = [] then Inl (TypeError ''Session ID must be a non-empty string'')
          else if CHR 0x00 \<in> set s \<or> CHR 0x0A \<in> set s \<or> CHR 0x0D \<in> set s
            then Inl (Error ''Invalid session ID format: contains control characters'')
          else if length s > 255
            then Inl (Error ''Session ID too long: maximum 255 characters allowed'')
          else Inr (prefix st @ s)
      | _ \<Rightarrow> Inl (TypeError ''Session ID must be a non-empty string''))"

text \<open>
  \<^verbatim>\<open>handleError\<close>: log, emit, call back. An exception out of \<^verbatim>\<open>emit\<close> or out of the
  callback leaves it.
\<close>

definition handleError ::
  "'p ValkeyStore \<Rightarrow> error \<Rightarrow> ('c, 'a) callback option \<Rightarrow> ('c, 'a) world \<Rightarrow> ('c, 'a) outcome" where
  "handleError st e callback w =
     (let w1 = (if logErrors st then console_log (ConsoleError e) w else w) in
      case emit st e w1 of
        (Some x, w2) \<Rightarrow> (Some x, w2)
      | (None, w2) \<Rightarrow> (case callback of Some f \<Rightarrow> f (Some e) Undefined w2 | None \<Rightarrow> (None, w2)))"

text \<open>
  \<^verbatim>\<open>.catch((error) => { this.handleError(error, cb) })\<close> at the end of a promise chain
  that ended as \<open>r\<close>: the result is the settlement of the promise \<^verbatim>\<open>catch\<close> returns.
\<close>

definition catch_handleError ::
  "'p ValkeyStore \<Rightarrow> ('c, 'a) callback \<Rightarrow> ('c, 'a) outcome \<Rightarrow> ('c, 'a) outcome" where
  "catch_handleError st cb r =
     (case r of (None, w) \<Rightarrow> (None, w) | (Some e, w) \<Rightarrow> handleError st e (Some cb) w)"

text \<open>
  \<^verbatim>\<open>p.then(() => cb()).catch((error) => { this.handleError(error, cb) })\<close> on the promise
  \<open>p\<close> of a client call that settled as \<open>r\<close>; the promise of the chain is dropped.
\<close>

definition then_cb_catch ::
  "'p ValkeyStore \<Rightarrow> ('c, 'a) callback \<Rightarrow> (error + 'x) \<times> ('c, 'a) world \<Rightarrow> ('c, 'a) world" where
  "then_cb_catch st cb r =
     dropped (catch_handleError st cb
       (case r of (Inl e, w) \<Rightarrow> (Some e, w) | (Inr u, w) \<Rightarrow> cb None Undefined w))"

text \<open>
  \<^verbatim>\<open>getTTL\<close>. The tests \<^verbatim>\<open>session.cookie && session.cookie.expires\<close> and
  \<^verbatim>\<open>session.cookie && session.cookie.maxAge\<close> are truthiness tests: an empty string and
  the number 0 are falsy, a \<^verbatim>\<open>Date\<close> object is truthy.
\<close>

definition truthy_expires :: "expires_field option \<Rightarrow> bool" where
  "truthy_expires x = (case x of None \<Rightarrow> False | Some (ExpDate t) \<Rightarrow> True | Some (ExpString s) \<Rightarrow> s \<noteq> [])"

definition truthy_number :: "int option \<Rightarrow> bool" where
  "truthy_number x = (case x of None \<Rightarrow> False | Some n \<Rightarrow> n \<noteq> 0)"

definition getTime :: "runtime \<Rightarrow> expires_field \<Rightarrow> int" where
  "getTime rt x = (case x of ExpDate t \<Rightarrow> t | ExpString s \<Rightarrow> Date_parse rt s)"

definition default_ttl :: "'p ValkeyStore \<Rightarrow> 'p SessionData \<Rightarrow> int" where
  "default_ttl st session = (case ttl st of TtlFunction f \<Rightarrow> f session | TtlNumber n \<Rightarrow> n)"

definition getTTL :: "'p ValkeyStore \<Rightarrow> runtime \<Rightarrow> 'p SessionData \<Rightarrow> int" where
  "getTTL st rt session =
     (if disableTTL st then - 1
      else
        let now = Date_now rt in
        case cookie session of
          None \<Rightarrow> default_ttl st session
        | Some c \<Rightarrow>
            if truthy_expires (expires c) then
              (case expires c of
                 Some x \<Rightarrow> max 0 ((getTime rt x - now) div 1000)
               | None \<Rightarrow> default_ttl st session)
            else if truthy_number (maxAge c) then
              (case maxAge c of
                 Some m \<Rightarrow> m div 1000
               | None \<Rightarrow> default_ttl st session)
            else default_ttl st session)"

section \<open>Operations on one session\<close>

text \<open>The handler \<^verbatim>\<open>get\<close> gives to \<^verbatim>\<open>then\<close> on the promise of \<^verbatim>\<open>client.get\<close>.\<close>

definition get_then ::
  "'p ValkeyStore \<Rightarrow> ('c, 'p SessionData) callback \<Rightarrow> string option \<Rightarrow>
   ('c, 'p SessionData) world \<Rightarrow> ('c, 'p SessionData) outcome" where
  "get_then st cb data w =
     (case data of
        None \<Rightarrow> cb None Null w
      | Some d \<Rightarrow>
          if d = [] then cb None Null w
          else
            (case parse st d of
               Parsed session \<Rightarrow>
                 (case cb None (Val session) w of
                    (Some x, w') \<Rightarrow> handleError st x (Some cb) w'
                  | (None, w') \<Rightarrow> (None, w'))
             | ParseThrows e \<Rightarrow> handleError st e (Some cb) w
             | ParsePromise r \<Rightarrow>
                 (None, dropped (catch_handleError st cb
                    (case r of
                       Inr session \<Rightarrow> cb None (Val session) w
                     | Inl e \<Rightarrow> (Some e, w))))))"

definition get_fn ::
  "'p ValkeyStore \<Rightarrow> 'c client \<Rightarrow> jsid \<Rightarrow> ('c, 'p SessionData) callback \<Rightarrow>
   ('c, 'p SessionData) world \<Rightarrow> ('c, 'p SessionData) outcome option" where
  "get_fn st cl sid cb w =
     (case key st sid of
        Inl e \<Rightarrow> Some (Some e, w)
      | Inr k \<Rightarrow>
          (case client_get cl k w of
             (Inl e, w') \<Rightarrow> Some (None, dropped (catch_handleError st cb (Some e, w')))
           | (Inr data, w') \<Rightarrow>
               Some (None, dropped (catch_handleError st cb (get_then st cb data w')))))"

definition get ::
  "'p ValkeyStore \<Rightarrow> 'c client \<Rightarrow> jsid \<Rightarrow> ('c, 'p SessionData) callback option \<Rightarrow>
   ('c, 'p SessionData) world \<Rightarrow> ('c, 'p SessionData) world option" where
  "get st cl sid callback w = optionalCb (get_fn st cl sid) callback (Some (emit st)) w"

definition set_fn ::
  "'p ValkeyStore \<Rightarrow> runtime \<Rightarrow> 'c client \<Rightarrow> jsid \<Rightarrow> 'p SessionData \<Rightarrow> ('c, 'a) callback \<Rightarrow>
   ('c, 'a) world \<Rightarrow> ('c, 'a) outcome option" where
  "set_fn st rt cl sid session cb w =
     (case key st sid of
        Inl e \<Rightarrow> Some (Some e, w)
      | Inr k \<Rightarrow>
          let ttl = getTTL st rt session in
          if ttl \<le> 0 \<and> \<not> disableTTL st then
            Some (None, then_cb_catch st cb (client_del cl [k] w))
          else
            (case stringify st session of
               Inl e \<Rightarrow> Some (handleError st e (Some cb) w)
             | Inr sessionData \<Rightarrow>
                 let setOptions = (if ttl > 0 then Some (Expiry Seconds ttl) else None) in
                 Some (None, then_cb_catch st cb (client_set cl k sessionData setOptions w))))"

definition set_op ::
  "'p ValkeyStore \<Rightarrow> runtime \<Rightarrow> 'c client \<Rightarrow> jsid \<Rightarrow> 'p SessionData \<Rightarrow> ('c, 'a) callback option \<Rightarrow>
   ('c, 'a) world \<Rightarrow> ('c, 'a) world option" where
  "set_op st rt cl sid session callback w =
     optionalCb (set_fn st rt cl sid session) callback (Some (emit st)) w"

definition destroy_fn ::
  "'p ValkeyStore \<Rightarrow> 'c client \<Rightarrow> jsid \<Rightarrow> ('c, 'a) callback \<Rightarrow>
   ('c, 'a) world \<Rightarrow> ('c, 'a) outcome option" where
  "destroy_fn st cl sid cb w =
     (case key st sid of
        Inl e \<Rightarrow> Some (Some e, w)
      | Inr k \<Rightarrow> Some (None, then_cb_catch st cb (client_del cl [k] w)))"

definition destroy ::
  "'p ValkeyStore \<Rightarrow> 'c client \<Rightarrow> jsid \<Rightarrow> ('c, 'a) callback option \<Rightarrow>
   ('c, 'a) world \<Rightarrow> ('c, 'a) world option" where
  "destroy st cl sid callback w = optionalCb (destroy_fn st cl sid) callback (Some (emit st)) w"

definition touch_fn ::
  "'p ValkeyStore \<Rightarrow> runtime \<Rightarrow> 'c client \<Rightarrow> jsid \<Rightarrow> 'p SessionData \<Rightarrow> ('c, 'a) callback \<Rightarrow>
   ('c, 'a) world \<Rightarrow> ('c, 'a) outcome option" where
  "touch_fn st rt cl sid session cb w =
     (case key st sid of
        Inl e \<Rightarrow> Some (Some e, w)
      | Inr k \<Rightarrow>
          let ttl = getTTL st rt session in
          Some (None, then_cb_catch st cb (client_expire cl k ttl w)))"

text \<open>
  \<^verbatim>\<open>touch\<close>. With \<open>disableTouch\<close> the \<^verbatim>\<open>async\<close> method calls the callback, if any, and
  returns a resolved promise; an exception out of the callback rejects the method's
  promise.
\<close>

definition touch ::
  "'p ValkeyStore \<Rightarrow> runtime \<Rightarrow> 'c client \<Rightarrow> jsid \<Rightarrow> 'p SessionData \<Rightarrow> ('c, 'a) callback option \<Rightarrow>
   ('c, 'a) world \<Rightarrow> ('c, 'a) world option" where
  "touch st rt cl sid session callback w =
     (if disableTouch st then
        (case callback of
           Some f \<Rightarrow>
             (case f None Undefined w of
                (Some x, w') \<Rightarrow> Some (settle (Rejected x) w')
              | (None, w') \<Rightarrow> Some (settle (Resolved Undefined) w'))
         | None \<Rightarrow> Some (settle (Resolved Undefined) w))
      else optionalCb (touch_fn st rt cl sid session) callback (Some (emit st)) w)"

text \<open>
  \<^verbatim>\<open>load\<close> calls \<^verbatim>\<open>get\<close> with a callback of its own and drops the promise \<^verbatim>\<open>get\<close>
  returns; it returns nothing itself, so \<open>settled\<close> is left as it was.
\<close>

definition load ::
  "'p ValkeyStore \<Rightarrow> 'c client \<Rightarrow> jsid \<Rightarrow> ('c, 'p SessionData) callback \<Rightarrow>
   ('c, 'p SessionData) world \<Rightarrow> ('c, 'p SessionData) world option" where
  "load st cl sid callback w =
     (case get st cl sid
             (Some (\<lambda>err session w'.
                case err of
                  Some e \<Rightarrow> callback (Some e) Undefined w'
                | None \<Rightarrow> callback None (case session of Val s \<Rightarrow> Val s | _ \<Rightarrow> Undefined) w'))
             (w\<lparr>settled := None\<rparr>) of
        None \<Rightarrow> None
      | Some w' \<Rightarrow>
          Some (case settled w' of
                  Some (Rejected e) \<Rightarrow> w'\<lparr>settled := settled w, unhandled := unhandled w' @ [e]\<rparr>
                | _ \<Rightarrow> w'\<lparr>settled := settled w\<rparr>))"

section \<open>Scan engine\<close>

fun isCursorFinished :: "cursor \<Rightarrow> bool" where
  "isCursorFinished (ClusterScanCursor h finished) = finished"
| "isCursorFinished (StringCursor s) = (s = ''0'')"

definition initial_cursor :: "'c client \<Rightarrow> cursor" where
  "initial_cursor cl = (if is_cluster cl then ClusterScanCursor [] False else StringCursor ''0'')"

text \<open>The \<^verbatim>\<open>do ... while\<close> loop of \<^verbatim>\<open>scanKeys\<close>; \<open>None\<close> when it never ends.\<close>

partial_function (option) scanKeys_loop ::
  "'c client \<Rightarrow> string \<Rightarrow> nat \<Rightarrow> cursor \<Rightarrow> string list \<Rightarrow> ('c, 'a) world \<Rightarrow>
   ((error + string list) \<times> ('c, 'a) world) option" where
  "scanKeys_loop cl pattern n cur keys w =
     (case client_scan cl cur pattern n w of
        (Inl e, w') \<Rightarrow> Some (Inl e, w')
      | (Inr (nextCursor, scanned), w') \<Rightarrow>
          if isCursorFinished nextCursor then Some (Inr (keys @ scanned), w')
          else scanKeys_loop cl pattern n nextCursor (keys @ scanned) w')"

text \<open>
  \<^verbatim>\<open>scanKeys(pattern, onComplete)\<close>: the result is the settlement of its promise,
  \<open>Some e\<close> a rejection (of a scan step, or an exception out of \<open>onComplete\<close>).
\<close>

definition scanKeys ::
  "'p ValkeyStore \<Rightarrow> 'c client \<Rightarrow> string \<Rightarrow> (string list \<Rightarrow> ('c, 'a) world \<Rightarrow> ('c, 'a) outcome) \<Rightarrow>
   ('c, 'a) world \<Rightarrow> ('c, 'a) outcome option" where
  "scanKeys st cl pattern onComplete w =
     (case scanKeys_loop cl pattern (scanCount st) (initial_cursor cl) [] w of
        None \<Rightarrow> None
      | Some (Inl e, w') \<Rightarrow> Some (Some e, w')
      | Some (Inr keys, w') \<Rightarrow> Some (onComplete keys w'))"

text \<open>
  The loop of \<^verbatim>\<open>scanAndProcessKeys\<close>. \<open>onBatch\<close> carries the variables its closure
  mutates as a state \<open>'s\<close>, and returns \<open>Some e\<close> when its promise rejects.
\<close>

partial_function (option) scanAndProcessKeys_loop ::
  "'c client \<Rightarrow> string \<Rightarrow> nat \<Rightarrow>
   (string list \<Rightarrow> 's \<Rightarrow> ('c, 'a) world \<Rightarrow> error option \<times> 's \<times> ('c, 'a) world) \<Rightarrow>
   cursor \<Rightarrow> 's \<Rightarrow> ('c, 'a) world \<Rightarrow> (error option \<times> 's \<times> ('c, 'a) world) option" where
  "scanAndProcessKeys_loop cl pattern n onBatch cur s w =
     (case client_scan cl cur pattern n w of
        (Inl e, w') \<Rightarrow> Some (Some e, s, w')
      | (Inr (nextCursor, scanned), w') \<Rightarrow>
          (case (if scanned \<noteq> [] then onBatch scanned s w' else (None, s, w')) of
             (Some e, s', w'') \<Rightarrow> Some (Some e, s', w'')
           | (None, s', w'') \<Rightarrow>
               if isCursorFinished nextCursor then Some (None, s', w'')
               else scanAndProcessKeys_loop cl pattern n onBatch nextCursor s' w''))"

definition scanAndProcessKeys ::
  "'p ValkeyStore \<Rightarrow> 'c client \<Rightarrow> string \<Rightarrow>
   (string list \<Rightarrow> 's \<Rightarrow> ('c, 'a) world \<Rightarrow> error option \<times> 's \<times> ('c, 'a) world) \<Rightarrow>
   's \<Rightarrow> ('c, 'a) world \<Rightarrow> (error option \<times> 's \<times> ('c, 'a) world) option" where
  "scanAndProcessKeys st cl pattern onBatch s w =
     scanAndProcessKeys_loop cl pattern (scanCount st) onBatch (initial_cursor cl) s w"

section \<open>Enumerating operations\<close>



text \<open>\<^verbatim>\<open>s.replace(pat, '')\<close> with a string pattern: the first occurrence is removed.\<close>

fun replace_first :: "string \<Rightarrow> string \<Rightarrow> string" where
  "replace_first pat [] = []"
| "replace_first pat (c # cs) =
     (if take (length pat) (c # cs) = pat then drop (length pat) (c # cs)
      else c # replace_first pat cs)"





subsection \<open>\<^verbatim>\<open>all\<close>\<close>

text \<open>
  The result object \<^verbatim>\<open>sessions\<close>, created as \<^verbatim>\<open>{}\<close>: its own properties and its
  prototype (\<open>None\<close> for \<^verbatim>\<open>Object.prototype\<close>). The assignment \<^verbatim>\<open>sessions[sid] = v\<close>
  of a record adds or replaces the own property \<open>sid\<close>, except for the sid \<^verbatim>\<open>__proto__\<close>,
  where the setter inherited from \<^verbatim>\<open>Object.prototype\<close> makes \<open>v\<close> the prototype and no
  own property is added.
\<close>

record 'p sessions =
  own :: "string \<rightharpoonup> 'p SessionData"
  proto :: "'p SessionData option"

definition empty_object :: "'p sessions" where
  "empty_object = \<lparr>own = Map.empty, proto = None\<rparr>"

definition assign :: "string \<Rightarrow> 'p SessionData \<Rightarrow> 'p sessions \<Rightarrow> 'p sessions" where
  "assign sid v obj =
     (if sid = ''__proto__'' then obj\<lparr>proto := Some v\<rparr> else obj\<lparr>own := (own obj)(sid \<mapsto> v)\<rparr>)"

definition MAX_BATCH_SIZE :: nat where
  "MAX_BATCH_SIZE = 1000"

text \<open>
  \<^verbatim>\<open>values.forEach((data, index) => ...)\<close>. Falsy data (\<^verbatim>\<open>null\<close>, the empty string) is
  passed over. \<^verbatim>\<open>chunk[index]\<close> beyond the chunk is \<^verbatim>\<open>undefined\<close>, and calling
  \<^verbatim>\<open>replace\<close> on it throws. Promises returned by \<^verbatim>\<open>parse\<close> are collected with their
  sid and key.
\<close>

fun all_forEach ::
  "'p ValkeyStore \<Rightarrow> string list \<Rightarrow> string option list \<Rightarrow> nat \<Rightarrow> 'p sessions \<Rightarrow>
   (string \<times> string \<times> (error + 'p SessionData)) list \<Rightarrow> ('c, 'a) world \<Rightarrow>
   error option \<times> 'p sessions \<times> (string \<times> string \<times> (error + 'p SessionData)) list \<times> ('c, 'a) world" where
  "all_forEach st chunk [] index sessions parsePromises w = (None, sessions, parsePromises, w)"
| "all_forEach st chunk (data # values) index sessions parsePromises w =
     (case data of
        None \<Rightarrow> all_forEach st chunk values (Suc index) sessions parsePromises w
      | Some d \<Rightarrow>
          if d = [] then all_forEach st chunk values (Suc index) sessions parsePromises w
          else if index < length chunk then
            (let sid = replace_first (prefix st) (chunk ! index) in
             case parse st d of
               Parsed session \<Rightarrow>
                 all_forEach st chunk values (Suc index) (assign sid session sessions) parsePromises w
             | ParseThrows e \<Rightarrow>
                 all_forEach st chunk values (Suc index) sessions parsePromises
                   (if logErrors st then console_log (WarnInvalid (chunk ! index)) w else w)
             | ParsePromise r \<Rightarrow>
                 all_forEach st chunk values (Suc index) sessions
                   (parsePromises @ [(sid, chunk ! index, r)]) w)
          else (Some (TypeError ''Cannot read properties of undefined (reading 'replace')''),
                sessions, parsePromises, w))"

text \<open>\<^verbatim>\<open>await Promise.all(parsePromises)\<close>: each resolution stores, each rejection warns.\<close>

fun all_await ::
  "'p ValkeyStore \<Rightarrow> (string \<times> string \<times> (error + 'p SessionData)) list \<Rightarrow> 'p sessions \<Rightarrow>
   ('c, 'a) world \<Rightarrow> 'p sessions \<times> ('c, 'a) world" where
  "all_await st [] sessions w = (sessions, w)"
| "all_await st ((sid, k, r) # ps) sessions w =
     (case r of
        Inr session \<Rightarrow> all_await st ps (assign sid session sessions) w
      | Inl e \<Rightarrow>
          all_await st ps sessions (if logErrors st then console_log (WarnInvalid k) w else w))"

text \<open>
  The batch handler of \<^verbatim>\<open>all\<close>: the \<^verbatim>\<open>for\<close> loop over chunks of at most
  \<open>MAX_BATCH_SIZE\<close> keys, on the keys still to process. Its state is \<^verbatim>\<open>sessions\<close> and
  \<^verbatim>\<open>totalProcessed\<close>.
\<close>

function all_onBatch ::
  "'p ValkeyStore \<Rightarrow> 'c client \<Rightarrow> string list \<Rightarrow> 'p sessions \<times> nat \<Rightarrow> ('c, 'a) world \<Rightarrow>
   error option \<times> ('p sessions \<times> nat) \<times> ('c, 'a) world" where
  "all_onBatch st cl keys s w =
     (if keys = [] then (None, s, w)
      else
        let chunk = take MAX_BATCH_SIZE keys in
        case client_mget cl chunk w of
          (Inl e, w1) \<Rightarrow> (Some e, s, w1)
        | (Inr values, w1) \<Rightarrow>
            (case all_forEach st chunk values 0 (fst s) [] w1 of
               (Some e, sessions1, parsePromises, w2) \<Rightarrow> (Some e, (sessions1, snd s), w2)
             | (None, sessions1, parsePromises, w2) \<Rightarrow>
                 (case all_await st parsePromises sessions1 w2 of
                    (sessions2, w3) \<Rightarrow>
                      let totalProcessed = snd s + length chunk;
                          w4 = (if totalProcessed > 10000 \<and> logErrors st
                                then console_log (WarnLarge totalProcessed) w3 else w3)
                      in all_onBatch st cl (drop MAX_BATCH_SIZE keys) (sessions2, totalProcessed) w4)))"
  by pat_completeness auto
termination
  by (relation "measure (\<lambda>(st, cl, keys, s, w). length keys)") (auto simp: MAX_BATCH_SIZE_def)

declare all_onBatch.simps [simp del]

text \<open>
  The \<^verbatim>\<open>async\<close> \<open>fn\<close> of \<^verbatim>\<open>all\<close>: \<^verbatim>\<open>cb(null, sessions)\<close> is inside the \<^verbatim>\<open>try\<close>, so an
  exception out of it goes to \<^verbatim>\<open>handleError\<close> as a rejection of the scan does; the
  promise \<open>fn\<close> returns is dropped.
\<close>

definition all_fn ::
  "'p ValkeyStore \<Rightarrow> 'c client \<Rightarrow> ('c, 'p sessions) callback \<Rightarrow>
   ('c, 'p sessions) world \<Rightarrow> ('c, 'p sessions) outcome option" where
  "all_fn st cl cb w =
     (case scanAndProcessKeys st cl (prefix st @ ''*'') (all_onBatch st cl) (empty_object, 0) w of
        None \<Rightarrow> None
      | Some (Some e, s, w') \<Rightarrow> Some (None, dropped (handleError st e (Some cb) w'))
      | Some (None, s, w') \<Rightarrow>
          Some (None, dropped (catch_handleError st cb (cb None (Val (fst s)) w'))))"

definition all_op ::
  "'p ValkeyStore \<Rightarrow> 'c client \<Rightarrow> ('c, 'p sessions) callback option \<Rightarrow>
   ('c, 'p sessions) world \<Rightarrow> ('c, 'p sessions) world option" where
  "all_op st cl callback w = optionalCb (all_fn st cl) callback (Some (emit st)) w"

section \<open>A recording callback, a fresh world and a scripted client\<close>

text \<open>A caller's callback that records what it is handed and returns.\<close>

definition record_cb :: "('c, 'a) callback" where
  "record_cb err data w = (None, w\<lparr>cb_calls := cb_calls w @ [(err, data)]\<rparr>)"

definition fresh :: "'c \<Rightarrow> ('c, 'a) world" where
  "fresh c = \<lparr>cstate = c, calls = [], events = [], console = [], cb_calls = [], settled = None,
              unhandled = []\<rparr>"

text \<open>
  A client double for concrete runs: an in-memory table of values with their expiry
  option, a script of the pages that successive scan steps return, and a choice of the
  calls that reject. Deleting and reading follow the key-value semantics; time does not
  pass between calls.
\<close>

record double =
  d_kv :: "string \<rightharpoonup> string \<times> expiry option"
  d_pages :: "(cursor \<times> string list) list"
  d_fail :: "call \<Rightarrow> error option"

definition double_client :: "bool \<Rightarrow> double client" where
  "double_client cluster =
     \<lparr>is_cluster = cluster,
      cget = (\<lambda>k d. case d_fail d (CGet k) of
                Some e \<Rightarrow> (Inl e, d)
              | None \<Rightarrow> (Inr (map_option fst (d_kv d k)), d)),
      cset = (\<lambda>k v opts d. case d_fail d (CSet k v opts) of
                Some e \<Rightarrow> (Inl e, d)
              | None \<Rightarrow> (Inr (), d\<lparr>d_kv := (d_kv d)(k \<mapsto> (v, opts))\<rparr>)),
      cdel = (\<lambda>ks d. case d_fail d (CDel ks) of
                Some e \<Rightarrow> (Inl e, d)
              | None \<Rightarrow> (Inr (), d\<lparr>d_kv := (\<lambda>k. if k \<in> set ks then None else d_kv d k)\<rparr>)),
      cexpire = (\<lambda>k n d. case d_fail d (CExpire k n) of
                Some e \<Rightarrow> (Inl e, d)
              | None \<Rightarrow>
                  (Inr (),
                   case d_kv d k of
                     None \<Rightarrow> d
                   | Some (v, x) \<Rightarrow>
                       if n \<le> 0 then d\<lparr>d_kv := (d_kv d)(k := None)\<rparr>
                       else d\<lparr>d_kv := (d_kv d)(k \<mapsto> (v, Some (Expiry Seconds n)))\<rparr>)),
      cmget = (\<lambda>ks d. case d_fail d (CMget ks) of
                Some e \<Rightarrow> (Inl e, d)
              | None \<Rightarrow> (Inr (map (\<lambda>k. map_option fst (d_kv d k)) ks), d)),
      cscan = (\<lambda>cur pat n d. case d_fail d (CScan cur pat n) of
                Some e \<Rightarrow> (Inl e, d)
              | None \<Rightarrow>
                  (case d_pages d of
                     [] \<Rightarrow> (Inl (Error ''scan script exhausted''), d)
                   | p # ps \<Rightarrow> (Inr p, d\<lparr>d_pages := ps\<rparr>)))\<rparr>"

section \<open>Specification-level definitions and example data\<close>

text \<open>The sid invariant of the specification: a non-empty string of at most 255
  characters without \<^verbatim>\<open>\0\<close>, \<^verbatim>\<open>\n\<close>, \<^verbatim>\<open>\r\<close>.\<close>

definition valid_sid :: "jsid \<Rightarrow> bool" where
  "valid_sid sid =
     (case sid of
        SStr s \<Rightarrow> s \<noteq> [] \<and> CHR 0x00 \<notin> set s \<and> CHR 0x0A \<notin> set s \<and> CHR 0x0D \<notin> set s
                  \<and> length s \<le> 255
      | _ \<Rightarrow> False)"

definition validation_error :: "error \<Rightarrow> bool" where
  "validation_error e =
     (e = TypeError ''Session ID must be a non-empty string'' \<or>
      e = Error ''Invalid session ID format: contains control characters'' \<or>
      e = Error ''Session ID too long: maximum 255 characters allowed'')"

definition no_failures :: "double \<Rightarrow> bool" where
  "no_failures d = (\<forall>c. d_fail d c = None)"

text \<open>The world as the next invocation finds it: a new promise, a new callback record.\<close>

definition new_invocation :: "('c, 'a) world \<Rightarrow> ('c, 'a) world" where
  "new_invocation w = w\<lparr>cb_calls := [], settled := None\<rparr>"

text \<open>\<^verbatim>\<open>set(sid, session)\<close> followed by \<^verbatim>\<open>get(sid)\<close>, nothing in between.\<close>

definition set_then_get ::
  "'p ValkeyStore \<Rightarrow> runtime \<Rightarrow> 'c client \<Rightarrow> jsid \<Rightarrow> 'p SessionData \<Rightarrow>
   ('c, 'p SessionData) callback option \<Rightarrow> ('c, 'p SessionData) world \<Rightarrow>
   ('c, 'p SessionData) world option" where
  "set_then_get st rt cl sid session callback w =
     (case set_op st rt cl sid session callback w of
        None \<Rightarrow> None
      | Some w' \<Rightarrow> get st cl sid callback (new_invocation w'))"

definition empty_double :: double where
  "empty_double = \<lparr>d_kv = Map.empty, d_pages = [], d_fail = (\<lambda>c. None)\<rparr>"

definition ex_rt :: runtime where
  "ex_rt = \<lparr>Date_now = 1000000, Date_parse = (\<lambda>s. 0)\<rparr>"

text \<open>
  An example store as constructed with the default options and a serializer that stores
  the payload string as it is (parse inverts stringify on sessions without a cookie);
  no listener is registered on it.
\<close>

definition bare_store :: "string ValkeyStore" where
  "bare_store =
     \<lparr>prefix = ''sess:'', ttl = TtlNumber 86400, disableTTL = False, disableTouch = False,
      logErrors = True, scanCount = 100,
      stringify = (\<lambda>session. Inr (payload session)),
      parse = (\<lambda>d. Parsed \<lparr>cookie = None, payload = d\<rparr>),
      error_listener = False\<rparr>"


definition cookie_session :: "Cookie \<Rightarrow> string SessionData" where
  "cookie_session c = \<lparr>cookie = Some c, payload = ''x''\<rparr>"

definition notouch_store :: "string ValkeyStore" where
  "notouch_store = bare_store\<lparr>disableTouch := True\<rparr>"

definition nottl_store :: "string ValkeyStore" where
  "nottl_store = bare_store\<lparr>disableTTL := True\<rparr>"


definition one_double :: double where
  "one_double = empty_double\<lparr>d_kv := [''sess:s1'' \<mapsto> (''hello'', None)]\<rparr>"

definition plain_session :: "string SessionData" where
  "plain_session = \<lparr>cookie = None, payload = ''hello''\<rparr>"

definition empty_session :: "string SessionData" where
  "empty_session = \<lparr>cookie = None, payload = []\<rparr>"

definition two_pages :: double where
  "two_pages = empty_double\<lparr>d_pages := [(StringCursor ''17'', [''sess:a'', ''sess:b'']),
                                          (StringCursor ''0'', [''sess:c'']),
                                          (StringCursor ''5'', [''sess:z''])]\<rparr>"

text \<open>A world in which the invocation's promise is unsettled and its callback not yet called.\<close>

definition fresh_call :: "('c, 'a) world \<Rightarrow> bool" where
  "fresh_call w = (settled w = None \<and> cb_calls w = [])"



subsection \<open>Auxiliary notions of the proofs\<close>

text \<open>A callback that returns, whatever the data and the world, when handed \<open>err\<close>.\<close>

definition accepts :: "('c, 'a) callback \<Rightarrow> error option \<Rightarrow> bool" where
  "accepts cb err = (\<forall>data w. fst (cb err data w) = None)"

text \<open>A callback that does not use the client.\<close>

definition clientless :: "('c, 'a) callback \<Rightarrow> bool" where
  "clientless cb = (\<forall>err data w. cstate (snd (cb err data w)) = cstate w
                                \<and> calls (snd (cb err data w)) = calls w)"

text \<open>
  The two ways an operation's \<open>fn\<close> ends by calling its callback: \<open>handleError\<close> with
  the callback on an error, the callback itself on a value.
\<close>

definition deliver ::
  "'p ValkeyStore \<Rightarrow> error option \<Rightarrow> 'a jsv \<Rightarrow> ('c, 'a) callback \<Rightarrow> ('c, 'a) world \<Rightarrow> ('c, 'a) world" where
  "deliver st err data cb w =
     snd (case err of Some e \<Rightarrow> handleError st e (Some cb) w | None \<Rightarrow> cb None data w)"

definition logged :: "'p ValkeyStore \<Rightarrow> error option \<Rightarrow> log list" where
  "logged st err = (case err of Some e \<Rightarrow> if logErrors st then [ConsoleError e] else [] | None \<Rightarrow> [])"


subsection \<open>Notions and examples for \<^verbatim>\<open>all\<close>\<close>

text \<open>
  The record that \<^verbatim>\<open>all\<close> obtains from a stored value: what the serializer's
  \<^verbatim>\<open>parse\<close> returns, or what its promise resolves with; none when it throws or its
  promise rejects.
\<close>

definition parsed_of :: "'p ValkeyStore \<Rightarrow> string \<Rightarrow> 'p SessionData option" where
  "parsed_of st d =
     (case parse st d of
        Parsed s \<Rightarrow> Some s
      | ParsePromise (Inr s) \<Rightarrow> Some s
      | _ \<Rightarrow> None)"

text \<open>
  The value the client double holds at a key.
\<close>

definition stored :: "double \<Rightarrow> string \<Rightarrow> string option" where
  "stored d k = map_option fst (d_kv d k)"

text \<open>
  An example store whose \<^verbatim>\<open>parse\<close> throws on a value that does not start with a
  brace, as \<^verbatim>\<open>JSON.parse\<close> does on a value that is no JSON text.
\<close>

definition strict_store :: "string ValkeyStore" where
  "strict_store =
     bare_store\<lparr>parse := (\<lambda>d. if take 1 d = ''{'' then Parsed \<lparr>cookie = None, payload = d\<rparr>
                              else ParseThrows (Error ''Unexpected token''))\<rparr>"

text \<open>
  The same store constructed with \<^verbatim>\<open>logErrors: false\<close>.
\<close>

definition quiet_store :: "string ValkeyStore" where
  "quiet_store = strict_store\<lparr>logErrors := False\<rparr>"

text \<open>
  A client double holding one parsable and one unparsable value, both returned by the
  first scan step.
\<close>

definition junk_double :: double where
  "junk_double =
     empty_double\<lparr>d_kv := [''sess:a'' \<mapsto> (''{ok}'', None), ''sess:b'' \<mapsto> (''garbage'', None)],
                  d_pages := [(StringCursor ''0'', [''sess:a'', ''sess:b''])]\<rparr>"

text \<open>
  The same double with the first scan step rejecting.
\<close>

definition scan_down_double :: double where
  "scan_down_double =
     junk_double\<lparr>d_fail := (\<lambda>x. if x = CScan (StringCursor ''0'') ''sess:*'' 100
                                 then Some (Error ''connection closed'') else None)\<rparr>"

text \<open>
  The same double with the multi-get of the two keys rejecting.
\<close>

definition mget_down_double :: double where
  "mget_down_double =
     junk_double\<lparr>d_fail := (\<lambda>x. if x = CMget [''sess:a'', ''sess:b'']
                                 then Some (Error ''connection closed'') else None)\<rparr>"

text \<open>
  A client double holding one parsable value under the key of the sid \<^verbatim>\<open>__proto__\<close>,
  returned by the first scan step.
\<close>

definition proto_double :: double where
  "proto_double =
     empty_double\<lparr>d_kv := [''sess:__proto__'' \<mapsto> (''{ok}'', None)],
                  d_pages := [(StringCursor ''0'', [''sess:__proto__''])]\<rparr>"

text \<open>The strict store after \<^verbatim>\<open>store.on('error', listener)\<close>.\<close>

definition strict_listened_store :: "string ValkeyStore" where
  "strict_listened_store = strict_store\<lparr>error_listener := True\<rparr>"

text \<open>
  The invariant of the loops of \<^verbatim>\<open>all\<close> over the keys \<open>K\<close> processed so far, with
  \<open>sessions\<close> the result object, \<open>pp\<close> the pending parse promises of the current
  chunk and \<open>W\<close> the console: every own property of the result is the parsed value of a
  processed key; every processed key with a parsable value, unless its sid is
  \<^verbatim>\<open>__proto__\<close>, is an own property of the result or pending with that value; every
  pending promise belongs to a processed key; and, when errors are logged,
  every processed key with an unparsable value has its warning on the console or is
  pending with the error.
\<close>

definition all_inv ::
  "'p ValkeyStore \<Rightarrow> (string \<Rightarrow> string option) \<Rightarrow> string set \<Rightarrow> 'p sessions \<Rightarrow>
   (string \<times> string \<times> (error + 'p SessionData)) list \<Rightarrow> log list \<Rightarrow> bool" where
  "all_inv st val K sessions pp W \<longleftrightarrow>
     (\<forall>sid s. own sessions sid = Some s \<longrightarrow>
        (\<exists>k\<in>K. \<exists>d. val k = Some d \<and> replace_first (prefix st) k = sid \<and> parsed_of st d = Some s))
   \<and> (\<forall>k\<in>K. \<forall>d s. val k = Some d \<and> parsed_of st d = Some s \<longrightarrow>
        replace_first (prefix st) k = ''__proto__'' \<or> replace_first (prefix st) k \<in> dom (own sessions)
        \<or> (\<exists>s'. (replace_first (prefix st) k, k, Inr s') \<in> set pp))
   \<and> (\<forall>sid k r. (sid, k, r) \<in> set pp \<longrightarrow>
        k \<in> K \<and> sid = replace_first (prefix st) k \<and> (\<exists>d. val k = Some d \<and> parse st d = ParsePromise r))
   \<and> (logErrors st \<longrightarrow>
        (\<forall>k\<in>K. \<forall>d. val k = Some d \<and> parsed_of st d = None \<longrightarrow>
           WarnInvalid k \<in> set W \<or> (\<exists>e. (replace_first (prefix st) k, k, Inl e) \<in> set pp)))"
section \<open>The calling convention on a delivered result\<close>

lemma accepts_record_cb: "accepts record_cb err"
  by (simp add: accepts_def record_cb_def)

lemma accepts_promise_cb_value: "accepts (promise_cb em) None"
  by (simp add: accepts_def promise_cb_def)

lemma accepts_promise_cb: "err \<noteq> None \<longrightarrow> error_listener st \<Longrightarrow> accepts (promise_cb (Some (emit st))) err"
  by (cases err) (simp_all add: accepts_def promise_cb_def emit_def)

lemma clientless_record_cb: "clientless record_cb"
  by (simp add: clientless_def record_cb_def)

lemma clientless_promise_cb: "clientless (promise_cb (Some (emit st)))"
  by (auto simp: clientless_def promise_cb_def emit_def settle_def split: option.splits)

lemma deliver_value: "accepts cb None \<Longrightarrow> cb None data w = (None, deliver st None data cb w)"
  by (simp add: accepts_def deliver_def prod_eq_iff)

lemma deliver_error:
  assumes "error_listener st" and "accepts cb (Some e)"
  shows "handleError st e (Some cb) w = (None, deliver st (Some e) Undefined cb w)"
proof -
  let ?w2 = "(if logErrors st then console_log (ConsoleError e) w else w)\<lparr>events :=
               events (if logErrors st then console_log (ConsoleError e) w else w) @ [e]\<rparr>"
  have h: "handleError st e (Some cb) w = cb (Some e) Undefined ?w2"
    using assms(1) by (simp add: handleError_def emit_def Let_def)
  from assms(2) have "fst (cb (Some e) Undefined ?w2) = None" by (simp add: accepts_def)
  then show ?thesis unfolding deliver_def option.case h by (simp add: prod_eq_iff)
qed

lemma dropped_returned [simp]: "dropped (None, w) = w"
  by (simp add: dropped_def)

lemma catch_handleError_returned [simp]: "catch_handleError st cb (None, w) = (None, w)"
  by (simp add: catch_handleError_def)

lemma catch_handleError_thrown [simp]:
  "catch_handleError st cb (Some e, w) = handleError st e (Some cb) w"
  by (simp add: catch_handleError_def)

lemma then_cb_catch_deliver:
  assumes "accepts cb (case r of Inl e \<Rightarrow> Some e | Inr u \<Rightarrow> None)"
    and "(case r of Inl e \<Rightarrow> True | Inr u \<Rightarrow> False) \<longrightarrow> error_listener st"
  shows "then_cb_catch st cb (r, w) =
           deliver st (case r of Inl e \<Rightarrow> Some e | Inr u \<Rightarrow> None) Undefined cb w"
proof (cases r)
  case (Inl e)
  with assms show ?thesis by (simp add: then_cb_catch_def deliver_error)
next
  case (Inr u)
  with assms show ?thesis by (simp add: then_cb_catch_def deliver_value [where st = st])
qed

lemma handleError_effect:
  assumes "error_listener st"
  shows "deliver st (Some e) data record_cb w =
           w\<lparr>console := console w @ logged st (Some e), events := events w @ [e],
             cb_calls := cb_calls w @ [(Some e, Undefined)]\<rparr>"
    and "settled w = None \<Longrightarrow> deliver st (Some e) data (promise_cb (Some (emit st))) w =
           w\<lparr>console := console w @ logged st (Some e), events := events w @ [e, e],
             settled := Some (Rejected e)\<rparr>"
  using assms
  by (simp_all add: deliver_def handleError_def emit_def record_cb_def promise_cb_def settle_def
        console_log_def logged_def Let_def)

lemma value_effect:
  shows "deliver st None data record_cb w = w\<lparr>cb_calls := cb_calls w @ [(None, data)]\<rparr>"
    and "settled w = None \<Longrightarrow> deliver st None data (promise_cb em) w = w\<lparr>settled := Some (Resolved data)\<rparr>"
  by (simp_all add: deliver_def record_cb_def promise_cb_def settle_def)

lemma optionalCb_promise_deliver:
  assumes fn: "\<And>cb. accepts cb err \<Longrightarrow> fn cb w = Some (None, deliver st err data cb w1)"
    and s: "settled w1 = None"
    and l: "err \<noteq> None \<longrightarrow> error_listener st"
  shows "\<exists>p. optionalCb fn None (Some (emit st)) w = Some p
           \<and> cstate p = cstate w1 \<and> calls p = calls w1 \<and> cb_calls p = cb_calls w1
           \<and> unhandled p = unhandled w1
           \<and> console p = console w1 @ logged st err
           \<and> events p = events w1 @ (case err of Some e \<Rightarrow> [e, e] | None \<Rightarrow> [])
           \<and> settled p = Some (case err of Some e \<Rightarrow> Rejected e | None \<Rightarrow> Resolved data)"
proof -
  have r: "fn (promise_cb (Some (emit st))) w =
             Some (None, deliver st err data (promise_cb (Some (emit st))) w1)"
    by (rule fn [OF accepts_promise_cb [OF l]])
  show ?thesis
  proof (cases err)
    case None
    then show ?thesis using s by (simp add: optionalCb_def r value_effect logged_def)
  next
    case (Some e)
    with l have "error_listener st" by simp
    from handleError_effect(2) [OF this s] Some show ?thesis
      by (simp add: optionalCb_def r)
  qed
qed

lemma optionalCb_callback_deliver:
  assumes fn: "\<And>cb. accepts cb err \<Longrightarrow> fn cb w = Some (None, deliver st err data cb w1)"
    and s: "settled w1 = None"
    and l: "err \<noteq> None \<longrightarrow> error_listener st"
  shows "\<exists>c. optionalCb fn (Some record_cb) (Some (emit st)) w = Some c
           \<and> cstate c = cstate w1 \<and> calls c = calls w1
           \<and> cb_calls c = cb_calls w1 @ [(err, case err of Some e \<Rightarrow> Undefined | None \<Rightarrow> data)]
           \<and> unhandled c = unhandled w1
           \<and> console c = console w1 @ logged st err
           \<and> events c = events w1 @ (case err of Some e \<Rightarrow> [e] | None \<Rightarrow> [])
           \<and> settled c = Some (Resolved Undefined)"
proof -
  have r: "fn record_cb w = Some (None, deliver st err data record_cb w1)"
    by (rule fn [OF accepts_record_cb])
  show ?thesis
  proof (cases err)
    case None
    then show ?thesis using s by (simp add: optionalCb_def r value_effect settle_def logged_def)
  next
    case (Some e)
    with l have el: "error_listener st" by simp
    from Some s show ?thesis
      by (simp add: optionalCb_def r settle_def handleError_effect(1) [OF el])
  qed
qed

lemma optionalCb_throw:
  assumes fn: "\<And>cb. fn cb w = Some (Some e, w)" and s: "settled w = None"
  shows "optionalCb fn cbo em w = Some (w\<lparr>settled := Some (Rejected e)\<rparr>)"
  using s by (cases cbo) (simp_all add: optionalCb_def fn settle_def)


lemma optionalCb_deliver_modes:
  assumes fn: "\<And>cb. accepts cb err \<Longrightarrow> fn cb w = Some (None, deliver st err data cb w1)"
    and s: "settled w1 = None"
    and m: "cbo = None \<or> cbo = Some record_cb"
    and l: "err \<noteq> None \<longrightarrow> error_listener st"
  shows "\<exists>p. optionalCb fn cbo (Some (emit st)) w = Some p
           \<and> cstate p = cstate w1 \<and> calls p = calls w1
           \<and> (cbo = None \<longrightarrow> cb_calls p = cb_calls w1 \<and>
                 settled p = Some (case err of Some e \<Rightarrow> Rejected e | None \<Rightarrow> Resolved data))
           \<and> (cbo = Some record_cb \<longrightarrow>
                 cb_calls p = cb_calls w1 @ [(err, case err of Some e \<Rightarrow> Undefined | None \<Rightarrow> data)])"
proof (cases cbo)
  case None
  with optionalCb_promise_deliver [of err fn w st data w1, OF fn s l] show ?thesis by auto
next
  case (Some f)
  with m have "cbo = Some record_cb" by simp
  with optionalCb_callback_deliver [of err fn w st data w1, OF fn s l] show ?thesis by auto
qed

section \<open>Every operation delivers one result to its callback\<close>



lemma get_fn_absent:
  assumes "key st sid = Inr k" and "cget cl k (cstate w) = (Inr None, c')" and "accepts cb None"
  shows "get_fn st cl sid cb w =
           Some (None, deliver st None Null cb (w\<lparr>cstate := c', calls := calls w @ [CGet k]\<rparr>))"
  using assms(1,2)
  by (simp add: get_fn_def client_get_def get_then_def deliver_value [OF assms(3), where st = st])


lemma get_fn_parsed:
  assumes "key st sid = Inr k" and "cget cl k (cstate w) = (Inr (Some d), c')" and "d \<noteq> []"
    and "parse st d = Parsed session \<or> parse st d = ParsePromise (Inr session)"
    and "accepts cb None"
  shows "get_fn st cl sid cb w =
           Some (None, deliver st None (Val session) cb (w\<lparr>cstate := c', calls := calls w @ [CGet k]\<rparr>))"
  using assms(1-4)
  by (auto simp: get_fn_def client_get_def get_then_def deliver_value [OF assms(5), where st = st])



lemma set_fn_delete:
  assumes "key st sid = Inr k" and "getTTL st rt session \<le> 0" and "\<not> disableTTL st"
    and "cdel cl [k] (cstate w) = (r, c')"
    and "accepts cb (case r of Inl e \<Rightarrow> Some e | Inr u \<Rightarrow> None)"
    and "(case r of Inl e \<Rightarrow> True | Inr u \<Rightarrow> False) \<longrightarrow> error_listener st"
  shows "set_fn st rt cl sid session cb w =
           Some (None, deliver st (case r of Inl e \<Rightarrow> Some e | Inr u \<Rightarrow> None) Undefined cb
                         (w\<lparr>cstate := c', calls := calls w @ [CDel [k]]\<rparr>))"
  using assms(1-4) by (simp add: set_fn_def client_del_def then_cb_catch_deliver [OF assms(5,6)])


lemma set_fn_write:
  assumes "key st sid = Inr k" and "disableTTL st \<or> 0 < getTTL st rt session"
    and "stringify st session = Inr sessionData"
    and "(if 0 < getTTL st rt session then Some (Expiry Seconds (getTTL st rt session)) else None) = opts"
    and "cset cl k sessionData opts (cstate w) = (r, c')"
    and "accepts cb (case r of Inl e \<Rightarrow> Some e | Inr u \<Rightarrow> None)"
    and "(case r of Inl e \<Rightarrow> True | Inr u \<Rightarrow> False) \<longrightarrow> error_listener st"
  shows "set_fn st rt cl sid session cb w =
           Some (None, deliver st (case r of Inl e \<Rightarrow> Some e | Inr u \<Rightarrow> None) Undefined cb
                         (w\<lparr>cstate := c', calls := calls w @ [CSet k sessionData opts]\<rparr>))"
proof -
  have nd: "\<not> (getTTL st rt session \<le> 0 \<and> \<not> disableTTL st)" using assms(2) by auto
  have "set_fn st rt cl sid session cb w =
          Some (None, then_cb_catch st cb (r, w\<lparr>cstate := c', calls := calls w @ [CSet k sessionData opts]\<rparr>))"
    unfolding set_fn_def Let_def
    by (simp only: assms(1,3,4,5) nd sum.case if_False client_set_def prod.case)
  then show ?thesis by (simp only: then_cb_catch_deliver [OF assms(6,7)])
qed

















lemma frame_all_forEach:
  "all_forEach st chunk values idx sessions pp w = (e, s', pp', w') \<Longrightarrow>
   events w' = events w \<and> cb_calls w' = cb_calls w \<and> settled w' = settled w \<and> unhandled w' = unhandled w
   \<and> cstate w' = cstate w \<and> calls w' = calls w"
proof (induction "values" arbitrary: idx sessions pp w)
  case Nil
  then show ?case by simp
next
  case (Cons data "values")
  show ?case
  proof (cases data)
    case None
    with Cons.prems Cons.IH show ?thesis by simp
  next
    case (Some d)
    show ?thesis
    proof (cases "d = []")
      case True
      with Some Cons.prems Cons.IH show ?thesis by simp
    next
      case False
      show ?thesis
      proof (cases "idx < length chunk")
        case out: False
        with Some False Cons.prems show ?thesis by simp
      next
        case True
        show ?thesis
        proof (cases "parse st d")
          case (Parsed s)
          with Some False True Cons.prems
          have "all_forEach st chunk values (Suc idx)
                  (assign (replace_first (prefix st) (chunk ! idx)) s sessions) pp w = (e, s', pp', w')"
            by (simp add: Let_def)
          from Cons.IH [OF this] show ?thesis .
        next
          case (ParseThrows x)
          let ?w = "if logErrors st then console_log (WarnInvalid (chunk ! idx)) w else w"
          from ParseThrows Some False True Cons.prems
          have "all_forEach st chunk values (Suc idx) sessions pp ?w = (e, s', pp', w')"
            by (simp add: Let_def)
          from Cons.IH [OF this] show ?thesis by (simp add: console_log_def split: if_splits)
        next
          case (ParsePromise r)
          with Some False True Cons.prems
          have "all_forEach st chunk values (Suc idx) sessions
                  (pp @ [(replace_first (prefix st) (chunk ! idx), chunk ! idx, r)]) w = (e, s', pp', w')"
            by (simp add: Let_def)
          from Cons.IH [OF this] show ?thesis .
        qed
      qed
    qed
  qed
qed

lemma frame_all_await:
  "all_await st pp sessions w = (s', w') \<Longrightarrow>
   events w' = events w \<and> cb_calls w' = cb_calls w \<and> settled w' = settled w \<and> unhandled w' = unhandled w
   \<and> cstate w' = cstate w \<and> calls w' = calls w"
proof (induction pp arbitrary: sessions w)
  case Nil
  then show ?case by simp
next
  case (Cons p pp)
  obtain sid k r where p: "p = (sid, k, r)" by (cases p)
  show ?case
  proof (cases r)
    case (Inl x)
    let ?w = "if logErrors st then console_log (WarnInvalid k) w else w"
    from Cons.prems p Inl have "all_await st pp sessions ?w = (s', w')" by simp
    from Cons.IH [OF this] show ?thesis by (simp add: console_log_def split: if_splits)
  next
    case (Inr s)
    from Cons.prems p Inr have "all_await st pp (assign sid s sessions) w = (s', w')" by simp
    from Cons.IH [OF this] show ?thesis .
  qed
qed

lemma all_onBatch_empty: "all_onBatch st cl [] s w = (None, s, w)"
  by (subst all_onBatch.simps) simp

lemma all_onBatch_mget_rejects:
  assumes "keys \<noteq> []" and "client_mget cl (take MAX_BATCH_SIZE keys) w = (Inl e, w1)"
  shows "all_onBatch st cl keys s w = (Some e, s, w1)"
  using assms by (subst all_onBatch.simps) (simp add: Let_def)

lemma all_onBatch_forEach_throws:
  assumes "keys \<noteq> []" and "client_mget cl (take MAX_BATCH_SIZE keys) w = (Inr vals, w1)"
    and "all_forEach st (take MAX_BATCH_SIZE keys) vals 0 (fst s) [] w1 = (Some e, sessions1, pp, w2)"
  shows "all_onBatch st cl keys s w = (Some e, (sessions1, snd s), w2)"
  using assms by (subst all_onBatch.simps) (simp add: Let_def)

lemma all_onBatch_step:
  assumes "keys \<noteq> []" and "client_mget cl (take MAX_BATCH_SIZE keys) w = (Inr vals, w1)"
    and "all_forEach st (take MAX_BATCH_SIZE keys) vals 0 (fst s) [] w1 = (None, sessions1, pp, w2)"
    and "all_await st pp sessions1 w2 = (sessions2, w3)"
    and "tp = snd s + length (take MAX_BATCH_SIZE keys)"
  shows "all_onBatch st cl keys s w =
           all_onBatch st cl (drop MAX_BATCH_SIZE keys) (sessions2, tp)
             (if tp > 10000 \<and> logErrors st then console_log (WarnLarge tp) w3 else w3)"
  using assms by (subst all_onBatch.simps) (simp add: Let_def)

lemma frame_all_onBatch:
  "all_onBatch st cl keys s w = (e, s', w') \<Longrightarrow>
   events w' = events w \<and> cb_calls w' = cb_calls w \<and> settled w' = settled w \<and> unhandled w' = unhandled w"
proof (induction st cl keys s w rule: all_onBatch.induct)
  case (1 st cl keys s w)
  show ?case
  proof (cases "keys = []")
    case True
    with "1.prems" show ?thesis by (simp add: all_onBatch_empty)
  next
    case False
    let ?chunk = "take MAX_BATCH_SIZE keys"
    obtain r w1 where m: "client_mget cl ?chunk w = (r, w1)" by (cases "client_mget cl ?chunk w")
    then have f1: "events w1 = events w \<and> cb_calls w1 = cb_calls w \<and> settled w1 = settled w \<and> unhandled w1 = unhandled w"
      by (auto simp: client_mget_def split: prod.splits)
    show ?thesis
    proof (cases r)
      case (Inl x)
      with m have "client_mget cl ?chunk w = (Inl x, w1)" by simp
      from all_onBatch_mget_rejects [OF False this, where st = st and s = s] "1.prems" f1 show ?thesis by simp
    next
      case (Inr vals)
      with m have m': "client_mget cl ?chunk w = (Inr vals, w1)" by simp
      obtain e1 sessions1 pp w2 where fe: "all_forEach st ?chunk vals 0 (fst s) [] w1 = (e1, sessions1, pp, w2)"
        by (cases "all_forEach st ?chunk vals 0 (fst s) [] w1") auto
      from frame_all_forEach [OF fe] f1
      have f2: "events w2 = events w \<and> cb_calls w2 = cb_calls w \<and> settled w2 = settled w \<and> unhandled w2 = unhandled w" by simp
      show ?thesis
      proof (cases e1)
        case (Some x)
        with fe have "all_forEach st ?chunk vals 0 (fst s) [] w1 = (Some x, sessions1, pp, w2)" by simp
        from all_onBatch_forEach_throws [OF False m' this] "1.prems" f2 show ?thesis by simp
      next
        case None
        with fe have fe': "all_forEach st ?chunk vals 0 (fst s) [] w1 = (None, sessions1, pp, w2)" by simp
        obtain sessions2 w3 where aw: "all_await st pp sessions1 w2 = (sessions2, w3)"
          by (cases "all_await st pp sessions1 w2")
        from frame_all_await [OF aw] f2
        have f3: "events w3 = events w \<and> cb_calls w3 = cb_calls w \<and> settled w3 = settled w \<and> unhandled w3 = unhandled w" by simp
        define tp where "tp = snd s + length ?chunk"
        define w4 where "w4 = (if tp > 10000 \<and> logErrors st then console_log (WarnLarge tp) w3 else w3)"
        have f4: "events w4 = events w \<and> cb_calls w4 = cb_calls w \<and> settled w4 = settled w \<and> unhandled w4 = unhandled w"
          using f3 by (simp add: console_log_def w4_def)
        from all_onBatch_step [OF False m' fe' aw tp_def] "1.prems"
        have rec: "all_onBatch st cl (drop MAX_BATCH_SIZE keys) (sessions2, tp) w4 = (e, s', w')"
          by (simp add: w4_def)
        have "events w' = events w4 \<and> cb_calls w' = cb_calls w4 \<and> settled w' = settled w4 \<and> unhandled w' = unhandled w4"
          by (rule "1.IH" [OF False refl m' [symmetric] refl fe' [symmetric] refl refl refl aw [symmetric] tp_def w4_def rec])
        with f4 show ?thesis by simp
      qed
    qed
  qed
qed

lemma frame_scanAndProcessKeys_loop:
  assumes run: "scanAndProcessKeys_loop cl pat n onBatch cur s w = Some y"
    and ob: "\<And>keys s w e s' w'. onBatch keys s w = (e, s', w') \<Longrightarrow>
               events w' = events w \<and> cb_calls w' = cb_calls w \<and> settled w' = settled w \<and> unhandled w' = unhandled w"
  shows "events (snd (snd y)) = events w \<and> cb_calls (snd (snd y)) = cb_calls w
         \<and> settled (snd (snd y)) = settled w \<and> unhandled (snd (snd y)) = unhandled w"
proof -
  have "(\<forall>keys s w e s' w'. onBatch keys s w = (e, s', w') \<longrightarrow>
               events w' = events w \<and> cb_calls w' = cb_calls w \<and> settled w' = settled w \<and> unhandled w' = unhandled w)
        \<longrightarrow> events (snd (snd y)) = events w \<and> cb_calls (snd (snd y)) = cb_calls w
         \<and> settled (snd (snd y)) = settled w \<and> unhandled (snd (snd y)) = unhandled w"
  proof (rule scanAndProcessKeys_loop.raw_induct
        [where P = "\<lambda>cl pat n onBatch cur s w y.
           (\<forall>keys s w e s' w'. onBatch keys s w = (e, s', w') \<longrightarrow>
               events w' = events w \<and> cb_calls w' = cb_calls w \<and> settled w' = settled w \<and> unhandled w' = unhandled w)
           \<longrightarrow> events (snd (snd y)) = events w \<and> cb_calls (snd (snd y)) = cb_calls w
             \<and> settled (snd (snd y)) = settled w \<and> unhandled (snd (snd y)) = unhandled w", OF _ run], goal_cases)
    case (1 f cl pat n onBatch cur s w y)
    show ?case
    proof
      assume ob': "\<forall>keys s w e s' w'. onBatch keys s w = (e, s', w') \<longrightarrow>
               events w' = events w \<and> cb_calls w' = cb_calls w \<and> settled w' = settled w \<and> unhandled w' = unhandled w"
      obtain r w1 where sc: "client_scan cl cur pat n w = (r, w1)" by (cases "client_scan cl cur pat n w")
      then have f1: "events w1 = events w \<and> cb_calls w1 = cb_calls w \<and> settled w1 = settled w \<and> unhandled w1 = unhandled w"
        by (auto simp: client_scan_def split: prod.splits)
      show "events (snd (snd y)) = events w \<and> cb_calls (snd (snd y)) = cb_calls w
             \<and> settled (snd (snd y)) = settled w \<and> unhandled (snd (snd y)) = unhandled w"
      proof (cases r)
        case (Inl e)
        with 1(2) sc f1 show ?thesis by auto
      next
        case (Inr p)
        obtain nc scanned where p: "p = (nc, scanned)" by (cases p)
        obtain e s2 w2 where b: "(if scanned \<noteq> [] then onBatch scanned s w1 else (None, s, w1)) = (e, s2, w2)"
          by (cases "if scanned \<noteq> [] then onBatch scanned s w1 else (None, s, w1)") auto
        have f2: "events w2 = events w \<and> cb_calls w2 = cb_calls w \<and> settled w2 = settled w \<and> unhandled w2 = unhandled w"
        proof (cases "scanned = []")
          case True
          with b f1 show ?thesis by simp
        next
          case False
          with b have "onBatch scanned s w1 = (e, s2, w2)" by simp
          with ob' f1 show ?thesis by metis
        qed
        show ?thesis
        proof (cases e)
          case (Some x)
          with 1(2) sc Inr p b f2 show ?thesis by auto
        next
          case None
          show ?thesis
          proof (cases "isCursorFinished nc")
            case True
            with 1(2) sc Inr p b f2 None show ?thesis by auto
          next
            case False
            with 1(2) sc Inr p b None have "f cl pat n onBatch nc s2 w2 = Some y" by auto
            from 1(1) [OF this] ob' f2 show ?thesis by simp
          qed
        qed
      qed
    qed
  qed
  with ob show ?thesis by blast
qed

lemma all_fn_rejected:
  assumes "scanAndProcessKeys_loop cl (prefix st @ ''*'') (scanCount st) (all_onBatch st cl)
             (initial_cursor cl) (empty_object, 0) w = Some (Some e, s', w')"
    and "error_listener st" and "accepts cb (Some e)"
  shows "all_fn st cl cb w = Some (None, deliver st (Some e) Undefined cb w')"
  using assms(1) by (simp add: all_fn_def scanAndProcessKeys_def deliver_error [OF assms(2,3)])

lemma all_fn_collected:
  assumes "scanAndProcessKeys_loop cl (prefix st @ ''*'') (scanCount st) (all_onBatch st cl)
             (initial_cursor cl) (empty_object, 0) w = Some (None, s', w')"
    and "accepts cb None"
  shows "all_fn st cl cb w = Some (None, deliver st None (Val (fst s')) cb w')"
  using assms(1)
  by (simp add: all_fn_def scanAndProcessKeys_def deliver_value [OF assms(2), where st = st])





lemma key_invalid: "\<not> valid_sid sid \<Longrightarrow> \<exists>e. key st sid = Inl e \<and> validation_error e"
  by (auto simp: valid_sid_def key_def validation_error_def split: jsid.splits)

lemma key_valid: "valid_sid (SStr s) \<Longrightarrow> key st (SStr s) = Inr (prefix st @ s)"
  by (auto simp: valid_sid_def key_def)

lemma valid_sid_string: "valid_sid sid \<Longrightarrow> \<exists>s. sid = SStr s"
  by (cases sid) (simp_all add: valid_sid_def)

lemma double_cdel:
  "no_failures d \<Longrightarrow> cdel (double_client cluster) ks d =
     (Inr (), d\<lparr>d_kv := (\<lambda>k. if k \<in> set ks then None else d_kv d k)\<rparr>)"
  by (simp add: double_client_def no_failures_def)

lemma double_cset:
  "no_failures d \<Longrightarrow> cset (double_client cluster) k v opts d =
     (Inr (), d\<lparr>d_kv := (d_kv d)(k \<mapsto> (v, opts))\<rparr>)"
  by (simp add: double_client_def no_failures_def)

lemma double_cget:
  "no_failures d \<Longrightarrow> cget (double_client cluster) k d = (Inr (map_option fst (d_kv d k)), d)"
  by (simp add: double_client_def no_failures_def)

lemma set_deletes_then_absent:
  assumes v: "valid_sid (SStr s)" and s: "settled w = None"
    and m: "cbo = None \<or> cbo = Some record_cb"
    and ttl: "\<not> disableTTL st" "getTTL st rt session \<le> 0"
    and nf: "no_failures (cstate w)"
  shows "\<exists>p. set_then_get st rt (double_client cluster) (SStr s) session cbo w = Some p
            \<and> (cbo = None \<longrightarrow> settled p = Some (Resolved Null))
            \<and> (cbo = Some record_cb \<longrightarrow> cb_calls p = [(None, Null)])"
proof -
  let ?cl = "double_client cluster"
  let ?k = "prefix st @ s"
  let ?d' = "(cstate w)\<lparr>d_kv := (\<lambda>k. if k \<in> set [?k] then None else d_kv (cstate w) k)\<rparr>"
  let ?w1 = "w\<lparr>cstate := ?d', calls := calls w @ [CDel [?k]]\<rparr>"
  have k: "key st (SStr s) = Inr ?k" by (rule key_valid [OF v])
  have ok: "(None :: error option) \<noteq> None \<longrightarrow> error_listener st" by simp
  have fn: "\<And>cb. accepts cb None \<Longrightarrow>
              set_fn st rt ?cl (SStr s) session cb w = Some (None, deliver st None Undefined cb ?w1)"
    using set_fn_delete [OF k ttl(2) ttl(1) double_cdel [OF nf, of cluster "[?k]"]] by simp
  have s1: "settled ?w1 = None" using s by simp
  from optionalCb_deliver_modes [of None "set_fn st rt ?cl (SStr s) session" w st Undefined ?w1 cbo, OF fn s1 m ok]
  obtain p where p: "set_op st rt ?cl (SStr s) session cbo w = Some p" "cstate p = ?d'"
    by (auto simp: set_op_def)
  let ?n = "new_invocation p"
  have nf': "no_failures (cstate ?n)" using nf p(2) by (simp add: new_invocation_def no_failures_def)
  have absent: "d_kv (cstate ?n) ?k = None" using p(2) by (simp add: new_invocation_def)
  let ?w2 = "?n\<lparr>cstate := cstate ?n, calls := calls ?n @ [CGet ?k]\<rparr>"
  have g: "\<And>cb. accepts cb None \<Longrightarrow>
             get_fn st ?cl (SStr s) cb ?n = Some (None, deliver st None Null cb ?w2)"
    using get_fn_absent [OF k, of ?cl ?n "cstate ?n"] double_cget [OF nf', of cluster ?k] absent by simp
  have s2: "settled ?w2 = None" "cb_calls ?w2 = []" by (simp_all add: new_invocation_def)
  from optionalCb_deliver_modes [of None "get_fn st ?cl (SStr s)" ?n st Null ?w2 cbo, OF g s2(1) m ok]
  obtain q where "get st ?cl (SStr s) cbo ?n = Some q"
    "cbo = None \<longrightarrow> settled q = Some (Resolved Null)"
    "cbo = Some record_cb \<longrightarrow> cb_calls q = [(None, Null)]"
    using s2(2) by (auto simp: get_def)
  with p(1) show ?thesis by (simp add: set_then_get_def)
qed

lemmas eval_defs =
  get_def get_fn_def get_then_def set_op_def set_fn_def touch_def touch_fn_def destroy_def
  destroy_fn_def optionalCb_def promise_cb_def key_def getTTL_def default_ttl_def handleError_def
  catch_handleError_def then_cb_catch_def dropped_def settle_def emit_def
  console_log_def record_cb_def client_get_def client_set_def client_del_def client_expire_def
  double_client_def fresh_def empty_double_def bare_store_def ex_rt_def Let_def
  truthy_expires_def truthy_number_def

section \<open>TTL derivation\<close>

lemma getTTL_disabled: "disableTTL st \<Longrightarrow> getTTL st rt session = - 1"
  by (simp add: getTTL_def)

text \<open>
  With \<open>disableTTL = false\<close>, \<open>getTTL\<close> goes down the priority list on the truthiness
  of the fields: an \<^verbatim>\<open>expires\<close> that is a date or a non-empty string gives
  \<open>max 0 (floor ((expires - now) / 1000))\<close>; otherwise a \<^verbatim>\<open>maxAge\<close> other than 0 gives
  \<open>floor (maxAge / 1000)\<close>, unclamped; otherwise the configured default is used (a
  function is applied to the record).
\<close>

lemma getTTL_truthy_fields:
  assumes "\<not> disableTTL st"
  shows "(cookie session = Some c \<and> expires c = Some x \<and> x \<noteq> ExpString [] \<longrightarrow>
            getTTL st rt session = max 0 ((getTime rt x - Date_now rt) div 1000))
       \<and> (cookie session = Some c \<and> \<not> truthy_expires (expires c) \<and> maxAge c = Some m \<and> m \<noteq> 0 \<longrightarrow>
            getTTL st rt session = m div 1000)
       \<and> ((case cookie session of None \<Rightarrow> True
            | Some c \<Rightarrow> \<not> truthy_expires (expires c) \<and> \<not> truthy_number (maxAge c)) \<longrightarrow>
            getTTL st rt session = (case ttl st of TtlFunction f \<Rightarrow> f session | TtlNumber n \<Rightarrow> n))"
  using assms
  by (auto simp: getTTL_def truthy_expires_def truthy_number_def default_ttl_def Let_def
      split: option.splits expires_field.splits)

text \<open>
  C1. The claim fails on the code for a record whose cookie has \<^verbatim>\<open>maxAge\<close> present and
  equal to 0 (and no \<^verbatim>\<open>expires\<close>): the priority list gives \<open>floor (0 / 1000) = 0\<close>, but
  \<open>getTTL\<close> tests the field for truthiness, passes over it and returns the configured
  default, 86400 on the example store. \<^verbatim>\<open>set\<close> then writes the record with an expiry of
  86400 seconds, where a \<^verbatim>\<open>maxAge\<close> of 1 millisecond (TTL 0) makes it delete the key.
\<close>

theorem getTTL_passes_over_maxAge_zero:
  "getTTL bare_store ex_rt (cookie_session \<lparr>expires = None, maxAge = Some 0\<rparr>) = 86400
   \<and> getTTL bare_store ex_rt (cookie_session \<lparr>expires = None, maxAge = Some 1\<rparr>) = 0
   \<and> map_option calls
       (set_op bare_store ex_rt (double_client False) (SStr ''s1'')
          (cookie_session \<lparr>expires = None, maxAge = Some 0\<rparr>) None
          (fresh one_double :: (double, unit) world))
      = Some [CSet ''sess:s1'' ''x'' (Some (Expiry Seconds 86400))]
   \<and> map_option calls
       (set_op bare_store ex_rt (double_client False) (SStr ''s1'')
          (cookie_session \<lparr>expires = None, maxAge = Some 1\<rparr>) None
          (fresh one_double :: (double, unit) world))
      = Some [CDel [''sess:s1'']]"
  by (simp add: eval_defs cookie_session_def one_double_def)

section \<open>Properties of single operations\<close>

text \<open>
  C9. With \<open>disableTouch\<close> set, \<^verbatim>\<open>touch\<close> succeeds at once for every sid, valid or
  not, and every record: no validation, no call on the client, the world unchanged but
  for the resolved promise and, when a callback is given, its one call with no error
  (the method's promise rejects only if the caller's callback throws).
\<close>

theorem touch_disabled_noop:
  assumes "disableTouch st" and "settled w = None"
  shows "touch st rt cl sid session None w = Some (w\<lparr>settled := Some (Resolved Undefined)\<rparr>)
       \<and> touch st rt cl sid session (Some record_cb) w =
           Some (w\<lparr>cb_calls := cb_calls w @ [(None, Undefined)], settled := Some (Resolved Undefined)\<rparr>)
       \<and> touch st rt cl sid session (Some f) w =
           Some (case f None Undefined w of
                   (None, w') \<Rightarrow> settle (Resolved Undefined) w'
                 | (Some x, w') \<Rightarrow> settle (Rejected x) w')"
  using assms by (simp add: touch_def settle_def record_cb_def split: prod.splits option.splits)

theorem touch_disabled_noop_witness:
  "touch notouch_store ex_rt (double_client False) (SStr []) plain_session None
       (fresh one_double :: (double, unit) world)
     = Some ((fresh one_double)\<lparr>settled := Some (Resolved Undefined)\<rparr>)
   \<and> touch notouch_store ex_rt (double_client False) SNull plain_session (Some record_cb)
       (fresh one_double :: (double, unit) world)
     = Some ((fresh one_double)\<lparr>cb_calls := [(None, Undefined)], settled := Some (Resolved Undefined)\<rparr>)"
proof -
  have a: "disableTouch notouch_store" by (simp add: notouch_store_def)
  have b: "settled (fresh one_double :: (double, unit) world) = None" by (simp add: fresh_def)
  have c: "cb_calls (fresh one_double :: (double, unit) world) = []" by (simp add: fresh_def)
  from touch_disabled_noop [OF a b, of ex_rt "double_client False" "SStr []" plain_session]
       touch_disabled_noop [OF a b, of ex_rt "double_client False" SNull plain_session]
  show ?thesis by (simp add: settle_def record_cb_def fresh_def)
qed

text \<open>
  C4. With \<open>disableTTL\<close> set, \<open>getTTL\<close> is the sentinel \<open>-1\<close>, and \<^verbatim>\<open>touch\<close> (touch not
  disabled) calls the set-expiry primitive with that sentinel as the expiry: the claim
  that no operation does so fails on the code. The run below is \<^verbatim>\<open>touch("abc", session)\<close>
  on a store with \<open>disableTTL = true\<close>.
\<close>

theorem touch_passes_sentinel_to_expire:
  "getTTL nottl_store ex_rt plain_session = - 1
   \<and> map_option calls
       (touch nottl_store ex_rt (double_client False) (SStr ''abc'') plain_session None (fresh one_double))
     = Some [CExpire ''sess:abc'' (- 1)]"
  by (simp add: nottl_store_def eval_defs one_double_def)

text \<open>
  C8. A serializer whose \<^verbatim>\<open>stringify\<close> gives the empty string for a record, and whose
  \<^verbatim>\<open>parse\<close> inverts it: \<^verbatim>\<open>set\<close> writes the empty string with a positive TTL, and
  \<^verbatim>\<open>get\<close> takes the empty string for a missing key and yields \<^verbatim>\<open>null\<close>, not the
  record.
\<close>

theorem set_get_empty_serialization:
  "stringify bare_store empty_session = Inr []
   \<and> parse bare_store [] = Parsed empty_session
   \<and> 0 < getTTL bare_store ex_rt empty_session
   \<and> map_option settled
       (set_then_get bare_store ex_rt (double_client False) (SStr ''s1'') empty_session None
          (fresh empty_double)) = Some (Some (Resolved Null))"
  by (simp add: set_then_get_def new_invocation_def empty_session_def eval_defs)

text \<open>
  For comparison: where the serialization is not empty, \<^verbatim>\<open>set\<close> followed by \<^verbatim>\<open>get\<close>
  on the client double gives back the record, under both calling conventions.
\<close>

lemma set_get_roundtrip:
  assumes v: "valid_sid (SStr s)" and s: "settled w = None"
    and m: "cbo = None \<or> cbo = Some record_cb"
    and ttl: "\<not> disableTTL st" "0 < getTTL st rt session"
    and nf: "no_failures (cstate w)"
    and ser: "stringify st session = Inr d" "d \<noteq> []"
    and inv: "parse st d = Parsed session \<or> parse st d = ParsePromise (Inr session)"
  shows "\<exists>p. set_then_get st rt (double_client cluster) (SStr s) session cbo w = Some p
            \<and> (cbo = None \<longrightarrow> settled p = Some (Resolved (Val session)))
            \<and> (cbo = Some record_cb \<longrightarrow> cb_calls p = [(None, Val session)])"
proof -
  let ?cl = "double_client cluster"
  let ?k = "prefix st @ s"
  let ?opts = "Some (Expiry Seconds (getTTL st rt session))"
  let ?d' = "(cstate w)\<lparr>d_kv := (d_kv (cstate w))(?k \<mapsto> (d, ?opts))\<rparr>"
  let ?w1 = "w\<lparr>cstate := ?d', calls := calls w @ [CSet ?k d ?opts]\<rparr>"
  have k: "key st (SStr s) = Inr ?k" by (rule key_valid [OF v])
  have ok: "(None :: error option) \<noteq> None \<longrightarrow> error_listener st" by simp
  have en: "disableTTL st \<or> 0 < getTTL st rt session" using ttl by simp
  have o: "(if 0 < getTTL st rt session then Some (Expiry Seconds (getTTL st rt session)) else None) = ?opts"
    using ttl by simp
  have fn: "\<And>cb. accepts cb None \<Longrightarrow>
              set_fn st rt ?cl (SStr s) session cb w = Some (None, deliver st None Undefined cb ?w1)"
    using set_fn_write [OF k en ser(1) o double_cset [OF nf, of cluster ?k d ?opts]] by simp
  have s1: "settled ?w1 = None" using s by simp
  from optionalCb_deliver_modes [of None "set_fn st rt ?cl (SStr s) session" w st Undefined ?w1 cbo, OF fn s1 m ok]
  obtain p where p: "set_op st rt ?cl (SStr s) session cbo w = Some p" "cstate p = ?d'"
    by (auto simp: set_op_def)
  let ?n = "new_invocation p"
  have nf': "no_failures (cstate ?n)" using nf p(2) by (simp add: new_invocation_def no_failures_def)
  have present: "d_kv (cstate ?n) ?k = Some (d, ?opts)" using p(2) by (simp add: new_invocation_def)
  let ?w2 = "?n\<lparr>cstate := cstate ?n, calls := calls ?n @ [CGet ?k]\<rparr>"
  have g: "\<And>cb. accepts cb None \<Longrightarrow>
             get_fn st ?cl (SStr s) cb ?n = Some (None, deliver st None (Val session) cb ?w2)"
    using get_fn_parsed [OF k _ ser(2) inv, of ?cl ?n "cstate ?n"] double_cget [OF nf', of cluster ?k] present
    by simp
  have s2: "settled ?w2 = None" "cb_calls ?w2 = []" by (simp_all add: new_invocation_def)
  from optionalCb_deliver_modes [of None "get_fn st ?cl (SStr s)" ?n st "Val session" ?w2 cbo, OF g s2(1) m ok]
  obtain q where "get st ?cl (SStr s) cbo ?n = Some q"
    "cbo = None \<longrightarrow> settled q = Some (Resolved (Val session))"
    "cbo = Some record_cb \<longrightarrow> cb_calls q = [(None, Val session)]"
    using s2(2) by (auto simp: get_def)
  with p(1) show ?thesis by (simp add: set_then_get_def)
qed

text \<open>
  What \<^verbatim>\<open>set\<close> issues on the client does not depend on how the call ends: a callback
  that does not use the client leaves the calls of the chain as they are, on a store
  with or without a listener.
\<close>

lemma handleError_client:
  assumes "clientless cb"
  shows "cstate (snd (handleError st e (Some cb) w)) = cstate w
       \<and> calls (snd (handleError st e (Some cb) w)) = calls w"
  using assms
  by (simp add: handleError_def emit_def console_log_def clientless_def Let_def)

lemma then_cb_catch_client:
  assumes c: "clientless cb"
  shows "cstate (then_cb_catch st cb (r, w)) = cstate w \<and> calls (then_cb_catch st cb (r, w)) = calls w"
proof (cases r)
  case (Inl e)
  obtain x w' where h: "handleError st e (Some cb) w = (x, w')" by (cases "handleError st e (Some cb) w")
  with handleError_client [OF c, of st e w] have "cstate w' = cstate w \<and> calls w' = calls w" by simp
  with Inl h show ?thesis by (cases x) (simp_all add: then_cb_catch_def dropped_def)
next
  case (Inr u)
  obtain x w' where h: "cb None Undefined w = (x, w')" by (cases "cb None Undefined w")
  with c have f: "cstate w' = cstate w \<and> calls w' = calls w"
    by (metis clientless_def snd_conv)
  show ?thesis
  proof (cases x)
    case None
    with Inr h f show ?thesis by (simp add: then_cb_catch_def)
  next
    case (Some y)
    obtain x' w'' where h': "handleError st y (Some cb) w' = (x', w'')"
      by (cases "handleError st y (Some cb) w'")
    with handleError_client [OF c, of st y w'] f have "cstate w'' = cstate w \<and> calls w'' = calls w"
      by simp
    with Inr h Some h' show ?thesis by (cases x') (simp_all add: then_cb_catch_def dropped_def)
  qed
qed

lemma optionalCb_client:
  assumes fn: "\<And>cb. fn cb w = Some (None, run cb)"
    and fr: "\<And>cb. clientless cb \<Longrightarrow> cstate (run cb) = c \<and> calls (run cb) = cs"
    and m: "cbo = None \<or> cbo = Some record_cb"
  shows "\<exists>p. optionalCb fn cbo (Some (emit st)) w = Some p \<and> cstate p = c \<and> calls p = cs"
proof (cases cbo)
  case None
  with fr [OF clientless_promise_cb [of st]] show ?thesis by (simp add: optionalCb_def fn)
next
  case (Some f)
  with m have "cbo = Some record_cb" by simp
  with fr [OF clientless_record_cb] show ?thesis
    by (simp add: optionalCb_def fn settle_def split: option.splits)
qed

lemma set_op_deletes:
  assumes v: "valid_sid (SStr s)" and s: "settled w = None"
    and m: "cbo = None \<or> cbo = Some record_cb"
    and ttl: "\<not> disableTTL st" "getTTL st rt session \<le> 0"
  shows "\<exists>p. set_op st rt cl (SStr s) session cbo w = Some p \<and> calls p = calls w @ [CDel [prefix st @ s]]"
proof -
  let ?k = "prefix st @ s"
  have k: "key st (SStr s) = Inr ?k" by (rule key_valid [OF v])
  obtain r c' where p: "cdel cl [?k] (cstate w) = (r, c')" by (cases "cdel cl [?k] (cstate w)")
  let ?w1 = "w\<lparr>cstate := c', calls := calls w @ [CDel [?k]]\<rparr>"
  have fn: "\<And>cb. set_fn st rt cl (SStr s) session cb w = Some (None, then_cb_catch st cb (r, ?w1))"
    using ttl by (simp add: set_fn_def k client_del_def p)
  have fr: "\<And>cb. clientless cb \<Longrightarrow>
              cstate (then_cb_catch st cb (r, ?w1)) = c' \<and>
              calls (then_cb_catch st cb (r, ?w1)) = calls w @ [CDel [?k]]"
    using then_cb_catch_client [of _ st r ?w1] by simp
  from optionalCb_client [of "set_fn st rt cl (SStr s) session" w "\<lambda>cb. then_cb_catch st cb (r, ?w1)", OF fn fr m]
  show ?thesis by (auto simp: set_op_def)
qed

lemma set_op_writes:
  assumes v: "valid_sid (SStr s)" and s: "settled w = None"
    and m: "cbo = None \<or> cbo = Some record_cb"
    and en: "disableTTL st \<or> 0 < getTTL st rt session"
    and ser: "stringify st session = Inr d"
  shows "\<exists>p. set_op st rt cl (SStr s) session cbo w = Some p \<and>
           calls p = calls w @ [CSet (prefix st @ s) d
             (if 0 < getTTL st rt session then Some (Expiry Seconds (getTTL st rt session)) else None)]"
proof -
  let ?k = "prefix st @ s"
  define opts where "opts = (if 0 < getTTL st rt session then Some (Expiry Seconds (getTTL st rt session)) else None)"
  have k: "key st (SStr s) = Inr ?k" by (rule key_valid [OF v])
  obtain r c' where p: "cset cl ?k d opts (cstate w) = (r, c')" by (cases "cset cl ?k d opts (cstate w)")
  let ?w1 = "w\<lparr>cstate := c', calls := calls w @ [CSet ?k d opts]\<rparr>"
  have nd: "\<not> (getTTL st rt session \<le> 0 \<and> \<not> disableTTL st)" using en by auto
  have fn: "\<And>cb. set_fn st rt cl (SStr s) session cb w = Some (None, then_cb_catch st cb (r, ?w1))"
    unfolding set_fn_def Let_def
    by (simp only: k ser opts_def [symmetric] p nd sum.case if_False client_set_def prod.case)
  have fr: "\<And>cb. clientless cb \<Longrightarrow>
              cstate (then_cb_catch st cb (r, ?w1)) = c' \<and>
              calls (then_cb_catch st cb (r, ?w1)) = calls w @ [CSet ?k d opts]"
    using then_cb_catch_client [of _ st r ?w1] by simp
  from optionalCb_client [of "set_fn st rt cl (SStr s) session" w "\<lambda>cb. then_cb_catch st cb (r, ?w1)", OF fn fr m]
  show ?thesis unfolding opts_def [symmetric] by (auto simp: set_op_def)
qed

text \<open>
  C2. For a valid sid, under either calling convention: with TTL tracking on and a
  derived TTL \<open>\<le> 0\<close>, \<^verbatim>\<open>set\<close> issues one delete of the key and no write, and on a
  client that deletes what it is told to, a \<^verbatim>\<open>get\<close> right after yields \<^verbatim>\<open>null\<close>;
  otherwise \<^verbatim>\<open>set\<close> writes the serialized record, with the TTL as expiry in seconds
  when it is positive and with no expiry option otherwise, which is the case whenever
  \<open>disableTTL\<close> is set (the TTL is then the sentinel \<open>-1\<close>).
\<close>

theorem set_deletes_or_writes:
  assumes "valid_sid (SStr s)" and "settled w = None" and "cbo = None \<or> cbo = Some record_cb"
  shows "(\<not> disableTTL st \<and> getTTL st rt session \<le> 0 \<longrightarrow>
            (\<exists>p. set_op st rt cl (SStr s) session cbo w = Some p
                 \<and> calls p = calls w @ [CDel [prefix st @ s]]))
       \<and> (\<not> disableTTL st \<and> getTTL st rt session \<le> 0 \<and> cl = double_client cluster
            \<and> no_failures (cstate w) \<longrightarrow>
            (\<exists>q. set_then_get st rt cl (SStr s) session cbo w = Some q
                 \<and> (cbo = None \<longrightarrow> settled q = Some (Resolved Null))
                 \<and> (cbo = Some record_cb \<longrightarrow> cb_calls q = [(None, Null)])))
       \<and> ((disableTTL st \<or> 0 < getTTL st rt session) \<and> stringify st session = Inr d \<longrightarrow>
            (\<exists>p. set_op st rt cl (SStr s) session cbo w = Some p
                 \<and> calls p = calls w @ [CSet (prefix st @ s) d
                      (if 0 < getTTL st rt session
                       then Some (Expiry Seconds (getTTL st rt session)) else None)]))
       \<and> (disableTTL st \<longrightarrow> getTTL st rt session = - 1)"
  using set_op_deletes [OF assms, of st rt session cl]
        set_deletes_then_absent [OF assms, of st rt session cluster]
        set_op_writes [OF assms, of st rt session d cl]
        getTTL_disabled [of st rt session]
  by blast

theorem set_deletes_or_writes_witness:
  "getTTL bare_store ex_rt (cookie_session \<lparr>expires = Some (ExpDate 5000), maxAge = None\<rparr>) \<le> 0
   \<and> map_option calls
       (set_op bare_store ex_rt (double_client False) (SStr ''s1'')
          (cookie_session \<lparr>expires = Some (ExpDate 5000), maxAge = None\<rparr>) None
          (fresh one_double :: (double, string SessionData) world))
      = Some [CDel [''sess:s1'']]
   \<and> map_option settled
       (set_then_get bare_store ex_rt (double_client False) (SStr ''s1'')
          (cookie_session \<lparr>expires = Some (ExpDate 5000), maxAge = None\<rparr>) None
          (fresh one_double)) = Some (Some (Resolved Null))"
proof -
  let ?sess = "cookie_session \<lparr>expires = Some (ExpDate 5000), maxAge = None\<rparr>"
  let ?w = "fresh one_double :: (double, string SessionData) world"
  have a: "valid_sid (SStr ''s1'')" by (simp add: valid_sid_def)
  have b: "settled ?w = None" by (simp add: fresh_def)
  have c: "(None :: (double, string SessionData) callback option) = None \<or> None = Some record_cb" by simp
  have t: "getTTL bare_store ex_rt ?sess \<le> 0" "\<not> disableTTL bare_store"
    by (simp_all add: getTTL_def bare_store_def cookie_session_def truthy_expires_def getTime_def ex_rt_def)
  have nf: "no_failures (cstate ?w)" by (simp add: no_failures_def fresh_def one_double_def empty_double_def)
  have cw: "calls ?w = []" by (simp add: fresh_def)
  have pf: "prefix bare_store = ''sess:''" by (simp add: bare_store_def)
  from set_deletes_or_writes [OF a b c, of bare_store ex_rt ?sess "double_client False" False]
  show ?thesis using t nf cw pf by auto
qed

section \<open>Validation of the session id\<close>

lemma get_fn_throws: "key st sid = Inl e \<Longrightarrow> get_fn st cl sid cb w = Some (Some e, w)"
  by (simp add: get_fn_def)

lemma set_fn_throws: "key st sid = Inl e \<Longrightarrow> set_fn st rt cl sid session cb w = Some (Some e, w)"
  by (simp add: set_fn_def)

lemma destroy_fn_throws: "key st sid = Inl e \<Longrightarrow> destroy_fn st cl sid cb w = Some (Some e, w)"
  by (simp add: destroy_fn_def)

lemma touch_fn_throws: "key st sid = Inl e \<Longrightarrow> touch_fn st rt cl sid session cb w = Some (Some e, w)"
  by (simp add: touch_fn_def)

lemma load_invalid:
  assumes "key st sid = Inl e"
  shows "\<exists>p. load st cl sid f w = Some p \<and> calls p = calls w \<and> cstate p = cstate w
            \<and> cb_calls p = cb_calls w"
  by (simp add: load_def get_def optionalCb_def get_fn_throws [OF assms] settle_def)

text \<open>
  C5 (as amended). For every invalid sid (empty, not a string, containing \<^verbatim>\<open>\0\<close>,
  \<^verbatim>\<open>\n\<close> or \<^verbatim>\<open>\r\<close>, or longer than 255 characters), \<open>key\<close> raises a validation error,
  and \<^verbatim>\<open>get\<close>, \<^verbatim>\<open>set\<close>, \<^verbatim>\<open>destroy\<close>, and \<^verbatim>\<open>touch\<close> unless touch is disabled, fail
  with it, raised synchronously on entry and before any I/O: the body of the operation
  throws the error in the world it was started in, the promise of the operation rejects
  with it, and no call reaches the client. \<^verbatim>\<open>load\<close>, which runs \<^verbatim>\<open>get\<close>, makes no
  call on the client either and reports no session. For a valid sid, \<open>key\<close> is
  \<open>prefix + sid\<close>; it is a function of the prefix and the sid alone and has no effect.
\<close>

theorem invalid_sid_rejected:
  "(\<not> valid_sid sid \<and> fresh_call w \<and> settled w' = None \<longrightarrow>
      (\<exists>e. validation_error e \<and> key st sid = Inl e
         \<and> get_fn st cl sid cb w = Some (Some e, w)
         \<and> set_fn st rt cl sid session cb' w' = Some (Some e, w')
         \<and> destroy_fn st cl sid cb' w' = Some (Some e, w')
         \<and> touch_fn st rt cl sid session cb' w' = Some (Some e, w')
         \<and> (\<exists>p. get st cl sid cbo w = Some p \<and> settled p = Some (Rejected e)
                \<and> calls p = calls w \<and> cstate p = cstate w)
         \<and> (\<exists>p. set_op st rt cl sid session cbo' w' = Some p \<and> settled p = Some (Rejected e)
                \<and> calls p = calls w' \<and> cstate p = cstate w')
         \<and> (\<exists>p. destroy st cl sid cbo' w' = Some p \<and> settled p = Some (Rejected e)
                \<and> calls p = calls w' \<and> cstate p = cstate w')
         \<and> (\<not> disableTouch st \<longrightarrow>
               (\<exists>p. touch st rt cl sid session cbo' w' = Some p \<and> settled p = Some (Rejected e)
                   \<and> calls p = calls w' \<and> cstate p = cstate w'))
         \<and> (\<exists>p. load st cl sid record_cb w = Some p \<and> calls p = calls w \<and> cstate p = cstate w
                \<and> (\<forall>d. (None, d) \<notin> set (cb_calls p)))))
   \<and> (valid_sid sid \<longrightarrow> (\<exists>s. sid = SStr s \<and> key st sid = Inr (prefix st @ s)))"
proof (intro conjI impI)
  assume h: "\<not> valid_sid sid \<and> fresh_call w \<and> settled w' = None"
  then obtain e where e: "key st sid = Inl e" "validation_error e" using key_invalid by blast
  from h have s: "settled w = None" and c: "cb_calls w = []" and s': "settled w' = None"
    by (simp_all add: fresh_call_def)
  have g: "\<exists>p. get st cl sid cbo w = Some p \<and> settled p = Some (Rejected e)
                \<and> calls p = calls w \<and> cstate p = cstate w"
    unfolding get_def
    by (simp add: optionalCb_throw [where fn = "get_fn st cl sid", OF get_fn_throws [OF e(1)] s])
  have t: "\<exists>p. set_op st rt cl sid session cbo' w' = Some p \<and> settled p = Some (Rejected e)
                \<and> calls p = calls w' \<and> cstate p = cstate w'"
    unfolding set_op_def
    by (simp add: optionalCb_throw [where fn = "set_fn st rt cl sid session", OF set_fn_throws [OF e(1)] s'])
  have d: "\<exists>p. destroy st cl sid cbo' w' = Some p \<and> settled p = Some (Rejected e)
                \<and> calls p = calls w' \<and> cstate p = cstate w'"
    unfolding destroy_def
    by (simp add: optionalCb_throw [where fn = "destroy_fn st cl sid", OF destroy_fn_throws [OF e(1)] s'])
  have u: "\<not> disableTouch st \<longrightarrow>
               (\<exists>p. touch st rt cl sid session cbo' w' = Some p \<and> settled p = Some (Rejected e)
                   \<and> calls p = calls w' \<and> cstate p = cstate w')"
    by (simp add: touch_def
          optionalCb_throw [where fn = "touch_fn st rt cl sid session", OF touch_fn_throws [OF e(1)] s'])
  from load_invalid [OF e(1), of cl record_cb w] c
  have l: "\<exists>p. load st cl sid record_cb w = Some p \<and> calls p = calls w \<and> cstate p = cstate w
                \<and> (\<forall>d. (None, d) \<notin> set (cb_calls p))"
    by auto
  from e g t d u l get_fn_throws [OF e(1)] set_fn_throws [OF e(1)] destroy_fn_throws [OF e(1)]
    touch_fn_throws [OF e(1)]
  show "\<exists>e. validation_error e \<and> key st sid = Inl e
         \<and> get_fn st cl sid cb w = Some (Some e, w)
         \<and> set_fn st rt cl sid session cb' w' = Some (Some e, w')
         \<and> destroy_fn st cl sid cb' w' = Some (Some e, w')
         \<and> touch_fn st rt cl sid session cb' w' = Some (Some e, w')
         \<and> (\<exists>p. get st cl sid cbo w = Some p \<and> settled p = Some (Rejected e)
                \<and> calls p = calls w \<and> cstate p = cstate w)
         \<and> (\<exists>p. set_op st rt cl sid session cbo' w' = Some p \<and> settled p = Some (Rejected e)
                \<and> calls p = calls w' \<and> cstate p = cstate w')
         \<and> (\<exists>p. destroy st cl sid cbo' w' = Some p \<and> settled p = Some (Rejected e)
                \<and> calls p = calls w' \<and> cstate p = cstate w')
         \<and> (\<not> disableTouch st \<longrightarrow>
               (\<exists>p. touch st rt cl sid session cbo' w' = Some p \<and> settled p = Some (Rejected e)
                   \<and> calls p = calls w' \<and> cstate p = cstate w'))
         \<and> (\<exists>p. load st cl sid record_cb w = Some p \<and> calls p = calls w \<and> cstate p = cstate w
                \<and> (\<forall>d. (None, d) \<notin> set (cb_calls p)))"
    by blast
next
  assume v: "valid_sid sid"
  then obtain s where "sid = SStr s" using valid_sid_string by blast
  with v key_valid show "\<exists>s. sid = SStr s \<and> key st sid = Inr (prefix st @ s)" by blast
qed

theorem invalid_sid_rejected_witness:
  "\<not> valid_sid (SStr [CHR ''a'', CHR 0x0A])
   \<and> map_option settled
       (get bare_store (double_client False) (SStr [CHR ''a'', CHR 0x0A]) None
          (fresh one_double :: (double, string SessionData) world))
       = Some (Some (Rejected (Error ''Invalid session ID format: contains control characters'')))
   \<and> map_option calls
       (get bare_store (double_client False) (SStr [CHR ''a'', CHR 0x0A]) None
          (fresh one_double :: (double, string SessionData) world)) = Some []
   \<and> map_option calls
       (touch bare_store ex_rt (double_client False) (SStr [CHR ''a'', CHR 0x0A]) plain_session
          (Some record_cb) (fresh one_double :: (double, unit) world)) = Some []
   \<and> valid_sid (SStr ''abc'') \<and> key bare_store (SStr ''abc'') = Inr ''sess:abc''"
proof -
  let ?sid = "SStr [CHR ''a'', CHR 0x0A]"
  let ?w = "fresh one_double :: (double, string SessionData) world"
  let ?w' = "fresh one_double :: (double, unit) world"
  let ?e = "Error ''Invalid session ID format: contains control characters''"
  have a: "\<not> valid_sid ?sid" by (simp add: valid_sid_def)
  have b: "fresh_call ?w" "settled ?w' = None" "calls ?w = []" "calls ?w' = []"
    by (simp_all add: fresh_def fresh_call_def)
  have k: "key bare_store ?sid = Inl ?e" by (simp add: key_def)
  have nt: "\<not> disableTouch bare_store" by (simp add: bare_store_def)
  have v: "valid_sid (SStr ''abc'')" by (simp add: valid_sid_def)
  have p: "prefix bare_store = ''sess:''" by (simp add: bare_store_def)
  from invalid_sid_rejected [of ?sid ?w ?w' bare_store "double_client False" record_cb ex_rt
         plain_session record_cb None "Some record_cb"] a b(1,2)
  obtain e where e: "key bare_store ?sid = Inl e"
    "\<exists>p. get bare_store (double_client False) ?sid None ?w = Some p \<and> settled p = Some (Rejected e)
        \<and> calls p = calls ?w \<and> cstate p = cstate ?w"
    "\<not> disableTouch bare_store \<longrightarrow>
       (\<exists>p. touch bare_store ex_rt (double_client False) ?sid plain_session (Some record_cb) ?w' = Some p
           \<and> settled p = Some (Rejected e) \<and> calls p = calls ?w' \<and> cstate p = cstate ?w')"
    by blast
  from e(1) k have ee: "e = ?e" by simp
  from e(2) ee b(3)
  have 1: "map_option settled (get bare_store (double_client False) ?sid None ?w) = Some (Some (Rejected ?e))"
    and 2: "map_option calls (get bare_store (double_client False) ?sid None ?w) = Some []"
    by auto
  from e(3) nt b(4)
  have 3: "map_option calls (touch bare_store ex_rt (double_client False) ?sid plain_session
              (Some record_cb) ?w') = Some []"
    by auto
  from invalid_sid_rejected [of "SStr ''abc''" ?w ?w' bare_store] v p
  have 4: "key bare_store (SStr ''abc'') = Inr ''sess:abc''" by auto
  from a 1 2 3 v 4 show ?thesis by blast
qed

text \<open>
  C5 as stated fails for \<^verbatim>\<open>touch\<close> with \<open>disableTouch\<close> set: the empty sid is not
  validated and the operation succeeds.
\<close>

theorem touch_disabled_invalid_sid_counterexample:
  "\<not> valid_sid (SStr [])
   \<and> touch notouch_store ex_rt (double_client False) (SStr []) plain_session None
       (fresh one_double :: (double, unit) world)
     = Some ((fresh one_double)\<lparr>settled := Some (Resolved Undefined)\<rparr>)"
  by (simp add: valid_sid_def touch_def notouch_store_def settle_def fresh_def)

section \<open>The two calling conventions\<close>








section \<open>The scan engine on a script of pages\<close>

lemma double_cscan_page:
  assumes "d_fail d (CScan cur pat n) = None" and "d_pages d = p # ps"
  shows "cscan (double_client cluster) cur pat n d = (Inr p, d\<lparr>d_pages := ps\<rparr>)"
  using assms by (simp add: double_client_def)

lemma double_cscan_exhausted:
  assumes "d_fail d (CScan cur pat n) = None" and "d_pages d = []"
  shows "cscan (double_client cluster) cur pat n d = (Inl (Error ''scan script exhausted''), d)"
  using assms by (simp add: double_client_def)

lemma scanKeys_loop_script:
  assumes "\<forall>p\<in>set pre. \<not> isCursorFinished (fst p)" and "isCursorFinished c"
    and "d_pages (cstate w) = pre @ (c, ks) # rest"
    and "\<forall>cur. d_fail (cstate w) (CScan cur pat n) = None"
  shows "scanKeys_loop (double_client cluster) pat n cur keys w =
           Some (Inr (keys @ concat (map snd pre) @ ks),
                 w\<lparr>cstate := (cstate w)\<lparr>d_pages := rest\<rparr>,
                   calls := calls w @ map (\<lambda>c. CScan c pat n) (cur # map fst pre)\<rparr>)"
  using assms
proof (induction pre arbitrary: cur keys w)
  case Nil
  then have "cscan (double_client cluster) cur pat n (cstate w) = (Inr (c, ks), (cstate w)\<lparr>d_pages := rest\<rparr>)"
    by (intro double_cscan_page) simp_all
  with Nil.prems(2) show ?case
    by (subst scanKeys_loop.simps) (simp add: client_scan_def)
next
  case (Cons p pre)
  obtain c1 k1 where p: "p = (c1, k1)" by (cases p)
  let ?d = "(cstate w)\<lparr>d_pages := pre @ (c, ks) # rest\<rparr>"
  let ?w = "w\<lparr>cstate := ?d, calls := calls w @ [CScan cur pat n]\<rparr>"
  from Cons.prems have sc: "cscan (double_client cluster) cur pat n (cstate w) = (Inr p, ?d)"
    by (intro double_cscan_page) simp_all
  from Cons.prems p have nf: "\<not> isCursorFinished c1" by simp
  have step: "scanKeys_loop (double_client cluster) pat n cur keys w =
          scanKeys_loop (double_client cluster) pat n c1 (keys @ k1) ?w"
    using sc p nf by (subst scanKeys_loop.simps) (simp add: client_scan_def)
  have "scanKeys_loop (double_client cluster) pat n c1 (keys @ k1) ?w =
           Some (Inr ((keys @ k1) @ concat (map snd pre) @ ks),
                 ?w\<lparr>cstate := (cstate ?w)\<lparr>d_pages := rest\<rparr>,
                   calls := calls ?w @ map (\<lambda>c. CScan c pat n) (c1 # map fst pre)\<rparr>)"
    using Cons.prems by (intro Cons.IH) simp_all
  with step p show ?case by simp
qed

lemma scanKeys_loop_unfinished:
  assumes "\<forall>p\<in>set pages. \<not> isCursorFinished (fst p)"
    and "d_pages (cstate w) = pages"
    and "\<forall>cur. d_fail (cstate w) (CScan cur pat n) = None"
  shows "\<exists>w'. scanKeys_loop (double_client cluster) pat n cur keys w =
           Some (Inl (Error ''scan script exhausted''), w')"
  using assms
proof (induction pages arbitrary: cur keys w)
  case Nil
  then have "cscan (double_client cluster) cur pat n (cstate w) = (Inl (Error ''scan script exhausted''), cstate w)"
    by (intro double_cscan_exhausted) simp_all
  then show ?case by (subst scanKeys_loop.simps) (simp add: client_scan_def)
next
  case (Cons p pages)
  obtain c1 k1 where p: "p = (c1, k1)" by (cases p)
  let ?d = "(cstate w)\<lparr>d_pages := pages\<rparr>"
  let ?w = "w\<lparr>cstate := ?d, calls := calls w @ [CScan cur pat n]\<rparr>"
  from Cons.prems have sc: "cscan (double_client cluster) cur pat n (cstate w) = (Inr p, ?d)"
    by (intro double_cscan_page) simp_all
  from Cons.prems p have nf: "\<not> isCursorFinished c1" by simp
  have step: "scanKeys_loop (double_client cluster) pat n cur keys w =
          scanKeys_loop (double_client cluster) pat n c1 (keys @ k1) ?w"
    using sc p nf by (subst scanKeys_loop.simps) (simp add: client_scan_def)
  have "\<exists>w'. scanKeys_loop (double_client cluster) pat n c1 (keys @ k1) ?w =
           Some (Inl (Error ''scan script exhausted''), w')"
    using Cons.prems by (intro Cons.IH) simp_all
  with step show ?case by simp
qed

text \<open>
  C3. On a script of scan responses whose last cursor is the first to pass the completion
  test, \<open>scanKeys\<close> issues one scan step per response, each with the current cursor
  (the initial one, then the one the step before returned), the pattern and the count
  hint, stops there (the responses after it stay unread), and hands \<open>onComplete\<close> the
  concatenation of the keys of every step. With no cursor passing the test it does not
  complete. The test is \<open>s = "0"\<close> on a string cursor and the cursor's own
  \<open>isFinished\<close> on a cluster cursor.
\<close>

theorem scanKeys_concatenates_until_finished:
  "(pages \<noteq> [] \<and> (\<forall>p\<in>set (butlast pages). \<not> isCursorFinished (fst p))
      \<and> isCursorFinished (fst (last pages)) \<and> d_pages (cstate w) = pages @ rest
      \<and> (\<forall>cur. d_fail (cstate w) (CScan cur pattern (scanCount st)) = None) \<longrightarrow>
    scanKeys st (double_client cluster) pattern onComplete w =
      Some (onComplete (concat (map snd pages))
              (w\<lparr>cstate := (cstate w)\<lparr>d_pages := rest\<rparr>,
                 calls := calls w @ map (\<lambda>c. CScan c pattern (scanCount st))
                            (initial_cursor (double_client cluster) # map fst (butlast pages))\<rparr>)))
   \<and> ((\<forall>p\<in>set pages. \<not> isCursorFinished (fst p)) \<and> d_pages (cstate w) = pages
      \<and> (\<forall>cur. d_fail (cstate w) (CScan cur pattern (scanCount st)) = None) \<longrightarrow>
    (\<exists>e w'. scanKeys st (double_client cluster) pattern onComplete w = Some (Some e, w')))
   \<and> isCursorFinished (StringCursor s) = (s = ''0'')
   \<and> isCursorFinished (ClusterScanCursor h fin) = fin
   \<and> initial_cursor (double_client False) = StringCursor ''0''
   \<and> \<not> isCursorFinished (initial_cursor (double_client True))"
proof (intro conjI impI)
  assume h: "pages \<noteq> [] \<and> (\<forall>p\<in>set (butlast pages). \<not> isCursorFinished (fst p))
      \<and> isCursorFinished (fst (last pages)) \<and> d_pages (cstate w) = pages @ rest
      \<and> (\<forall>cur. d_fail (cstate w) (CScan cur pattern (scanCount st)) = None)"
  then obtain c ks where l: "last pages = (c, ks)" by (cases "last pages")
  with h have pg: "pages = butlast pages @ [(c, ks)]" by (metis append_butlast_last_id)
  have dp: "d_pages (cstate w) = butlast pages @ (c, ks) # rest" using h pg by (metis append_Cons append_Nil append_assoc)
  have cat: "concat (map snd pages) = concat (map snd (butlast pages)) @ ks"
    by (subst pg) simp
  from h l have fin: "isCursorFinished c" by simp
  from h have un: "\<forall>p\<in>set (butlast pages). \<not> isCursorFinished (fst p)"
    and nf: "\<forall>cur. d_fail (cstate w) (CScan cur pattern (scanCount st)) = None" by simp_all
  from scanKeys_loop_script [OF un fin dp nf, of cluster "initial_cursor (double_client cluster)" "[]"]
  show "scanKeys st (double_client cluster) pattern onComplete w =
      Some (onComplete (concat (map snd pages))
              (w\<lparr>cstate := (cstate w)\<lparr>d_pages := rest\<rparr>,
                 calls := calls w @ map (\<lambda>c. CScan c pattern (scanCount st))
                            (initial_cursor (double_client cluster) # map fst (butlast pages))\<rparr>))"
    by (simp add: scanKeys_def cat)
next
  assume h: "(\<forall>p\<in>set pages. \<not> isCursorFinished (fst p)) \<and> d_pages (cstate w) = pages
      \<and> (\<forall>cur. d_fail (cstate w) (CScan cur pattern (scanCount st)) = None)"
  then have "\<exists>w'. scanKeys_loop (double_client cluster) pattern (scanCount st)
                 (initial_cursor (double_client cluster)) [] w =
           Some (Inl (Error ''scan script exhausted''), w')"
    by (intro scanKeys_loop_unfinished) simp_all
  then show "\<exists>e w'. scanKeys st (double_client cluster) pattern onComplete w = Some (Some e, w')"
    by (auto simp: scanKeys_def)
qed (simp_all add: initial_cursor_def double_client_def)

theorem scanKeys_concatenates_until_finished_witness:
  "map_option (\<lambda>r. cb_calls (snd r))
     (scanKeys bare_store (double_client False) ''sess:*'' (\<lambda>keys. record_cb None (Val keys))
        (fresh two_pages))
     = Some [(None, Val [''sess:a'', ''sess:b'', ''sess:c''])]
   \<and> map_option (\<lambda>r. calls (snd r))
     (scanKeys bare_store (double_client False) ''sess:*'' (\<lambda>keys. record_cb None (Val keys))
        (fresh two_pages :: (double, string list) world))
     = Some [CScan (StringCursor ''0'') ''sess:*'' 100, CScan (StringCursor ''17'') ''sess:*'' 100]"
proof -
  let ?w = "fresh two_pages :: (double, string list) world"
  let ?pages = "[(StringCursor ''17'', [''sess:a'', ''sess:b'']), (StringCursor ''0'', [''sess:c''])]"
  let ?rest = "[(StringCursor ''5'', [''sess:z''])]"
  have h: "?pages \<noteq> [] \<and> (\<forall>p\<in>set (butlast ?pages). \<not> isCursorFinished (fst p))
      \<and> isCursorFinished (fst (last ?pages)) \<and> d_pages (cstate ?w) = ?pages @ ?rest
      \<and> (\<forall>cur. d_fail (cstate ?w) (CScan cur ''sess:*'' (scanCount bare_store)) = None)"
    by (simp add: fresh_def two_pages_def empty_double_def)
  from scanKeys_concatenates_until_finished
         [where pages = ?pages and w = ?w and rest = ?rest and pattern = "''sess:*''"
            and st = bare_store and cluster = False
            and onComplete = "\<lambda>keys. record_cb None (Val keys)"] h
  have "scanKeys bare_store (double_client False) ''sess:*'' (\<lambda>keys. record_cb None (Val keys)) ?w =
      Some (record_cb None (Val (concat (map snd ?pages)))
              (?w\<lparr>cstate := (cstate ?w)\<lparr>d_pages := ?rest\<rparr>,
                 calls := calls ?w @ map (\<lambda>c. CScan c ''sess:*'' (scanCount bare_store))
                            (initial_cursor (double_client False) # map fst (butlast ?pages))\<rparr>))"
    by blast
  then show ?thesis
    by (simp add: record_cb_def fresh_def bare_store_def initial_cursor_def double_client_def)
qed

section \<open>\<^verbatim>\<open>all\<close>: unparsable entries\<close>

lemma inv_skip:
  assumes "val k = None" and "all_inv st val K s pp W"
  shows "all_inv st val (insert k K) s pp W"
  using assms unfolding all_inv_def by (intro conjI) (blast, simp, blast, simp)

lemma inv_parsed:
  assumes "val k = Some d" and "parse st d = Parsed x" and "all_inv st val K s pp W"
  shows "all_inv st val (insert k K) (assign (replace_first (prefix st) k) x s) pp W"
proof -
  have po: "parsed_of st d = Some x" using assms(2) by (simp add: parsed_of_def)
  from assms(3) have
    g1: "\<forall>sid s'. own s sid = Some s' \<longrightarrow>
        (\<exists>k\<in>K. \<exists>d. val k = Some d \<and> replace_first (prefix st) k = sid \<and> parsed_of st d = Some s')"
    and g2: "\<forall>k\<in>K. \<forall>d s'. val k = Some d \<and> parsed_of st d = Some s' \<longrightarrow>
        replace_first (prefix st) k = ''__proto__'' \<or> replace_first (prefix st) k \<in> dom (own s)
        \<or> (\<exists>s'. (replace_first (prefix st) k, k, Inr s') \<in> set pp)"
    and g3: "\<forall>sid k r. (sid, k, r) \<in> set pp \<longrightarrow>
        k \<in> K \<and> sid = replace_first (prefix st) k \<and> (\<exists>d. val k = Some d \<and> parse st d = ParsePromise r)"
    and g4: "logErrors st \<longrightarrow>
        (\<forall>k\<in>K. \<forall>d. val k = Some d \<and> parsed_of st d = None \<longrightarrow>
           WarnInvalid k \<in> set W \<or> (\<exists>e. (replace_first (prefix st) k, k, Inl e) \<in> set pp))"
    unfolding all_inv_def by blast+
  show ?thesis
    unfolding all_inv_def
  proof (intro conjI)
    show "\<forall>sid s'. own (assign (replace_first (prefix st) k) x s) sid = Some s' \<longrightarrow>
        (\<exists>k\<in>insert k K. \<exists>d. val k = Some d \<and> replace_first (prefix st) k = sid \<and> parsed_of st d = Some s')"
      using g1 assms(1) po by (auto simp: assign_def split: if_splits)
    show "\<forall>k'\<in>insert k K. \<forall>d s'. val k' = Some d \<and> parsed_of st d = Some s' \<longrightarrow>
        replace_first (prefix st) k' = ''__proto__'' \<or> replace_first (prefix st) k' \<in> dom (own (assign (replace_first (prefix st) k) x s))
        \<or> (\<exists>s'. (replace_first (prefix st) k', k', Inr s') \<in> set pp)"
      using g2 by (auto simp: assign_def)
    show "\<forall>sid k' r. (sid, k', r) \<in> set pp \<longrightarrow>
        k' \<in> insert k K \<and> sid = replace_first (prefix st) k' \<and> (\<exists>d. val k' = Some d \<and> parse st d = ParsePromise r)"
      using g3 by blast
    show "logErrors st \<longrightarrow>
        (\<forall>k'\<in>insert k K. \<forall>d. val k' = Some d \<and> parsed_of st d = None \<longrightarrow>
           WarnInvalid k' \<in> set W \<or> (\<exists>e. (replace_first (prefix st) k', k', Inl e) \<in> set pp))"
      using g4 assms(1) po by auto
  qed
qed

lemma inv_throws:
  assumes "val k = Some d" and "parse st d = ParseThrows e" and "all_inv st val K s pp W"
  shows "all_inv st val (insert k K) s pp (if logErrors st then W @ [WarnInvalid k] else W)"
proof -
  have po: "parsed_of st d = None" using assms(2) by (simp add: parsed_of_def)
  from assms(3) have
    g1: "\<forall>sid s'. own s sid = Some s' \<longrightarrow>
        (\<exists>k\<in>K. \<exists>d. val k = Some d \<and> replace_first (prefix st) k = sid \<and> parsed_of st d = Some s')"
    and g2: "\<forall>k\<in>K. \<forall>d s'. val k = Some d \<and> parsed_of st d = Some s' \<longrightarrow>
        replace_first (prefix st) k = ''__proto__'' \<or> replace_first (prefix st) k \<in> dom (own s)
        \<or> (\<exists>s'. (replace_first (prefix st) k, k, Inr s') \<in> set pp)"
    and g3: "\<forall>sid k r. (sid, k, r) \<in> set pp \<longrightarrow>
        k \<in> K \<and> sid = replace_first (prefix st) k \<and> (\<exists>d. val k = Some d \<and> parse st d = ParsePromise r)"
    and g4: "logErrors st \<longrightarrow>
        (\<forall>k\<in>K. \<forall>d. val k = Some d \<and> parsed_of st d = None \<longrightarrow>
           WarnInvalid k \<in> set W \<or> (\<exists>e. (replace_first (prefix st) k, k, Inl e) \<in> set pp))"
    unfolding all_inv_def by blast+
  show ?thesis
    unfolding all_inv_def
  proof (intro conjI)
    show "\<forall>sid s'. own s sid = Some s' \<longrightarrow>
        (\<exists>k\<in>insert k K. \<exists>d. val k = Some d \<and> replace_first (prefix st) k = sid \<and> parsed_of st d = Some s')"
      using g1 by blast
    show "\<forall>k'\<in>insert k K. \<forall>d s'. val k' = Some d \<and> parsed_of st d = Some s' \<longrightarrow>
        replace_first (prefix st) k' = ''__proto__'' \<or> replace_first (prefix st) k' \<in> dom (own s)
        \<or> (\<exists>s'. (replace_first (prefix st) k', k', Inr s') \<in> set pp)"
      using g2 assms(1) po by auto
    show "\<forall>sid k' r. (sid, k', r) \<in> set pp \<longrightarrow>
        k' \<in> insert k K \<and> sid = replace_first (prefix st) k' \<and> (\<exists>d. val k' = Some d \<and> parse st d = ParsePromise r)"
      using g3 by blast
    show "logErrors st \<longrightarrow>
        (\<forall>k'\<in>insert k K. \<forall>d. val k' = Some d \<and> parsed_of st d = None \<longrightarrow>
           WarnInvalid k' \<in> set (if logErrors st then W @ [WarnInvalid k] else W)
           \<or> (\<exists>e. (replace_first (prefix st) k', k', Inl e) \<in> set pp))"
      using g4 by auto
  qed
qed

lemma inv_promise:
  assumes "val k = Some d" and "parse st d = ParsePromise r" and "all_inv st val K s pp W"
  shows "all_inv st val (insert k K) s (pp @ [(replace_first (prefix st) k, k, r)]) W"
proof -
  from assms(3) have
    g1: "\<forall>sid s'. own s sid = Some s' \<longrightarrow>
        (\<exists>k\<in>K. \<exists>d. val k = Some d \<and> replace_first (prefix st) k = sid \<and> parsed_of st d = Some s')"
    and g2: "\<forall>k\<in>K. \<forall>d s'. val k = Some d \<and> parsed_of st d = Some s' \<longrightarrow>
        replace_first (prefix st) k = ''__proto__'' \<or> replace_first (prefix st) k \<in> dom (own s)
        \<or> (\<exists>s'. (replace_first (prefix st) k, k, Inr s') \<in> set pp)"
    and g3: "\<forall>sid k r. (sid, k, r) \<in> set pp \<longrightarrow>
        k \<in> K \<and> sid = replace_first (prefix st) k \<and> (\<exists>d. val k = Some d \<and> parse st d = ParsePromise r)"
    and g4: "logErrors st \<longrightarrow>
        (\<forall>k\<in>K. \<forall>d. val k = Some d \<and> parsed_of st d = None \<longrightarrow>
           WarnInvalid k \<in> set W \<or> (\<exists>e. (replace_first (prefix st) k, k, Inl e) \<in> set pp))"
    unfolding all_inv_def by blast+
  let ?pp = "pp @ [(replace_first (prefix st) k, k, r)]"
  show ?thesis
    unfolding all_inv_def
  proof (intro conjI)
    show "\<forall>sid s'. own s sid = Some s' \<longrightarrow>
        (\<exists>k\<in>insert k K. \<exists>d. val k = Some d \<and> replace_first (prefix st) k = sid \<and> parsed_of st d = Some s')"
      using g1 by blast
    show "\<forall>k'\<in>insert k K. \<forall>d s'. val k' = Some d \<and> parsed_of st d = Some s' \<longrightarrow>
        replace_first (prefix st) k' = ''__proto__'' \<or> replace_first (prefix st) k' \<in> dom (own s)
        \<or> (\<exists>s'. (replace_first (prefix st) k', k', Inr s') \<in> set ?pp)"
    proof (intro ballI allI impI)
      fix k' d' s'
      assume k': "k' \<in> insert k K" and h: "val k' = Some d' \<and> parsed_of st d' = Some s'"
      show "replace_first (prefix st) k' = ''__proto__'' \<or> replace_first (prefix st) k' \<in> dom (own s)
        \<or> (\<exists>s'. (replace_first (prefix st) k', k', Inr s') \<in> set ?pp)"
      proof (cases "k' = k")
        case True
        with h assms(1,2) have "r = Inr s'"
          by (cases r) (simp_all add: parsed_of_def)
        with True show ?thesis by auto
      next
        case False
        with k' h g2 show ?thesis by auto
      qed
    qed
    show "\<forall>sid k' r'. (sid, k', r') \<in> set ?pp \<longrightarrow>
        k' \<in> insert k K \<and> sid = replace_first (prefix st) k' \<and> (\<exists>d. val k' = Some d \<and> parse st d = ParsePromise r')"
      using g3 assms(1,2) by auto
    show "logErrors st \<longrightarrow>
        (\<forall>k'\<in>insert k K. \<forall>d. val k' = Some d \<and> parsed_of st d = None \<longrightarrow>
           WarnInvalid k' \<in> set W \<or> (\<exists>e. (replace_first (prefix st) k', k', Inl e) \<in> set ?pp))"
    proof (intro impI ballI allI)
      fix k' d'
      assume le: "logErrors st" and k': "k' \<in> insert k K" and h: "val k' = Some d' \<and> parsed_of st d' = None"
      show "WarnInvalid k' \<in> set W \<or> (\<exists>e. (replace_first (prefix st) k', k', Inl e) \<in> set ?pp)"
      proof (cases "k' = k")
        case True
        with h assms(1,2) obtain e where "r = Inl e"
          by (cases r) (simp_all add: parsed_of_def)
        with True show ?thesis by auto
      next
        case False
        with k' h g4 le show ?thesis by auto
      qed
    qed
  qed
qed

lemma inv_console_mono:
  assumes "all_inv st val K s pp W" and "set W \<subseteq> set W'"
  shows "all_inv st val K s pp W'"
  using assms unfolding all_inv_def by (intro conjI) (blast, blast, blast, blast)

lemma inv_more_keys:
  assumes "all_inv st val K s pp W" and "K' = K"
  shows "all_inv st val K' s pp W"
  using assms by simp

lemma inv_await_resolve:
  assumes "all_inv st val K s ((sid, k, Inr x) # pp) W"
  shows "all_inv st val K (assign sid x s) pp W"
proof -
  from assms have
    g1: "\<forall>sid s'. own s sid = Some s' \<longrightarrow>
        (\<exists>k\<in>K. \<exists>d. val k = Some d \<and> replace_first (prefix st) k = sid \<and> parsed_of st d = Some s')"
    and g2: "\<forall>k'\<in>K. \<forall>d s'. val k' = Some d \<and> parsed_of st d = Some s' \<longrightarrow>
        replace_first (prefix st) k' = ''__proto__'' \<or> replace_first (prefix st) k' \<in> dom (own s)
        \<or> (\<exists>s'. (replace_first (prefix st) k', k', Inr s') \<in> set ((sid, k, Inr x) # pp))"
    and g3: "\<forall>sid' k' r. (sid', k', r) \<in> set ((sid, k, Inr x) # pp) \<longrightarrow>
        k' \<in> K \<and> sid' = replace_first (prefix st) k' \<and> (\<exists>d. val k' = Some d \<and> parse st d = ParsePromise r)"
    and g4: "logErrors st \<longrightarrow>
        (\<forall>k'\<in>K. \<forall>d. val k' = Some d \<and> parsed_of st d = None \<longrightarrow>
           WarnInvalid k' \<in> set W \<or> (\<exists>e. (replace_first (prefix st) k', k', Inl e) \<in> set ((sid, k, Inr x) # pp)))"
    unfolding all_inv_def by blast+
  from g3 have hd: "k \<in> K" "sid = replace_first (prefix st) k"
    "\<exists>d. val k = Some d \<and> parse st d = ParsePromise (Inr x)" by auto
  then obtain d where d: "val k = Some d" "parsed_of st d = Some x" by (auto simp: parsed_of_def)
  show ?thesis
    unfolding all_inv_def
  proof (intro conjI)
    show "\<forall>sid' s'. own (assign sid x s) sid' = Some s' \<longrightarrow>
        (\<exists>k\<in>K. \<exists>d. val k = Some d \<and> replace_first (prefix st) k = sid' \<and> parsed_of st d = Some s')"
      using g1 hd(1,2) d by (auto simp: assign_def split: if_splits)
    show "\<forall>k'\<in>K. \<forall>d s'. val k' = Some d \<and> parsed_of st d = Some s' \<longrightarrow>
        replace_first (prefix st) k' = ''__proto__'' \<or> replace_first (prefix st) k' \<in> dom (own (assign sid x s))
        \<or> (\<exists>s'. (replace_first (prefix st) k', k', Inr s') \<in> set pp)"
      using g2 hd(2) by (auto simp: assign_def)
    show "\<forall>sid' k' r. (sid', k', r) \<in> set pp \<longrightarrow>
        k' \<in> K \<and> sid' = replace_first (prefix st) k' \<and> (\<exists>d. val k' = Some d \<and> parse st d = ParsePromise r)"
      using g3 by auto
    show "logErrors st \<longrightarrow>
        (\<forall>k'\<in>K. \<forall>d. val k' = Some d \<and> parsed_of st d = None \<longrightarrow>
           WarnInvalid k' \<in> set W \<or> (\<exists>e. (replace_first (prefix st) k', k', Inl e) \<in> set pp))"
      using g4 by auto
  qed
qed

lemma inv_await_reject:
  assumes "all_inv st val K s ((sid, k, Inl e) # pp) W"
  shows "all_inv st val K s pp (if logErrors st then W @ [WarnInvalid k] else W)"
proof -
  from assms have
    g1: "\<forall>sid s'. own s sid = Some s' \<longrightarrow>
        (\<exists>k\<in>K. \<exists>d. val k = Some d \<and> replace_first (prefix st) k = sid \<and> parsed_of st d = Some s')"
    and g2: "\<forall>k'\<in>K. \<forall>d s'. val k' = Some d \<and> parsed_of st d = Some s' \<longrightarrow>
        replace_first (prefix st) k' = ''__proto__'' \<or> replace_first (prefix st) k' \<in> dom (own s)
        \<or> (\<exists>s'. (replace_first (prefix st) k', k', Inr s') \<in> set ((sid, k, Inl e) # pp))"
    and g3: "\<forall>sid' k' r. (sid', k', r) \<in> set ((sid, k, Inl e) # pp) \<longrightarrow>
        k' \<in> K \<and> sid' = replace_first (prefix st) k' \<and> (\<exists>d. val k' = Some d \<and> parse st d = ParsePromise r)"
    and g4: "logErrors st \<longrightarrow>
        (\<forall>k'\<in>K. \<forall>d. val k' = Some d \<and> parsed_of st d = None \<longrightarrow>
           WarnInvalid k' \<in> set W \<or> (\<exists>e'. (replace_first (prefix st) k', k', Inl e') \<in> set ((sid, k, Inl e) # pp)))"
    unfolding all_inv_def by blast+
  show ?thesis
    unfolding all_inv_def
  proof (intro conjI)
    show "\<forall>sid s'. own s sid = Some s' \<longrightarrow>
        (\<exists>k\<in>K. \<exists>d. val k = Some d \<and> replace_first (prefix st) k = sid \<and> parsed_of st d = Some s')"
      using g1 by blast
    show "\<forall>k'\<in>K. \<forall>d s'. val k' = Some d \<and> parsed_of st d = Some s' \<longrightarrow>
        replace_first (prefix st) k' = ''__proto__'' \<or> replace_first (prefix st) k' \<in> dom (own s)
        \<or> (\<exists>s'. (replace_first (prefix st) k', k', Inr s') \<in> set pp)"
      using g2 by auto
    show "\<forall>sid' k' r. (sid', k', r) \<in> set pp \<longrightarrow>
        k' \<in> K \<and> sid' = replace_first (prefix st) k' \<and> (\<exists>d. val k' = Some d \<and> parse st d = ParsePromise r)"
      using g3 by auto
    show "logErrors st \<longrightarrow>
        (\<forall>k'\<in>K. \<forall>d. val k' = Some d \<and> parsed_of st d = None \<longrightarrow>
           WarnInvalid k' \<in> set (if logErrors st then W @ [WarnInvalid k] else W)
           \<or> (\<exists>e'. (replace_first (prefix st) k', k', Inl e') \<in> set pp))"
      using g4 by auto
  qed
qed

lemma all_forEach_aligned:
  assumes "drop idx chunk = ks"
  shows "\<exists>sessions' pp' w'.
           all_forEach st chunk (map val ks) idx sessions pp w = (None, sessions', pp', w')
         \<and> cstate w' = cstate w \<and> calls w' = calls w
         \<and> set (console w) \<subseteq> set (console w')
         \<and> (\<not> logErrors st \<longrightarrow> console w' = console w)
         \<and> ((\<forall>k\<in>set ks. val k \<noteq> Some []) \<and> all_inv st val K sessions pp (console w)
              \<longrightarrow> all_inv st val (K \<union> set ks) sessions' pp' (console w'))"
  using assms
proof (induction ks arbitrary: idx sessions pp w K)
  case Nil
  then show ?case by simp
next
  case (Cons k ks)
  from Cons.prems have lt: "idx < length chunk"
    by (metis drop_all leI list.distinct(1))
  with Cons.prems have at: "chunk ! idx = k" and dr: "drop (Suc idx) chunk = ks"
    by (metis Cons_nth_drop_Suc list.inject)+
  let ?sid = "replace_first (prefix st) k"
  have un: "\<And>A. insert k A \<union> set ks = A \<union> set (k # ks)" by auto
  show ?case
  proof (cases "val k")
    case None
    from Cons.IH [OF dr, of sessions pp w "insert k K"]
    obtain sessions' pp' w' where r:
      "all_forEach st chunk (map val ks) (Suc idx) sessions pp w = (None, sessions', pp', w')"
      "cstate w' = cstate w" "calls w' = calls w" "set (console w) \<subseteq> set (console w')"
      "\<not> logErrors st \<longrightarrow> console w' = console w"
      "(\<forall>k\<in>set ks. val k \<noteq> Some []) \<and> all_inv st val (insert k K) sessions pp (console w)
              \<longrightarrow> all_inv st val (insert k K \<union> set ks) sessions' pp' (console w')"
      by blast
    have "all_forEach st chunk (map val (k # ks)) idx sessions pp w = (None, sessions', pp', w')"
      using None r(1) by simp
    moreover have "(\<forall>k\<in>set (k # ks). val k \<noteq> Some []) \<and> all_inv st val K sessions pp (console w)
              \<longrightarrow> all_inv st val (K \<union> set (k # ks)) sessions' pp' (console w')"
      using r(6) inv_skip [where val = val and k = k and st = st and K = K and s = sessions and pp = pp and W = "console w", OF None] by (simp add: un)
    ultimately show ?thesis using r(2-5) by blast
  next
    case (Some d)
    show ?thesis
    proof (cases "d = []")
      case True
      from Cons.IH [OF dr, of sessions pp w "insert k K"]
      obtain sessions' pp' w' where r:
        "all_forEach st chunk (map val ks) (Suc idx) sessions pp w = (None, sessions', pp', w')"
        "cstate w' = cstate w" "calls w' = calls w" "set (console w) \<subseteq> set (console w')"
        "\<not> logErrors st \<longrightarrow> console w' = console w"
        by blast
      have "all_forEach st chunk (map val (k # ks)) idx sessions pp w = (None, sessions', pp', w')"
        using Some True r(1) by simp
      moreover have "(\<forall>k\<in>set (k # ks). val k \<noteq> Some []) \<and> all_inv st val K sessions pp (console w)
              \<longrightarrow> all_inv st val (K \<union> set (k # ks)) sessions' pp' (console w')"
        using Some True by simp
      ultimately show ?thesis using r(2-5) by blast
    next
      case False
      show ?thesis
      proof (cases "parse st d")
        case (Parsed x)
        from Cons.IH [OF dr, of "assign ?sid x sessions" pp w "insert k K"]
        obtain sessions' pp' w' where r:
          "all_forEach st chunk (map val ks) (Suc idx) (assign ?sid x sessions) pp w = (None, sessions', pp', w')"
          "cstate w' = cstate w" "calls w' = calls w" "set (console w) \<subseteq> set (console w')"
          "\<not> logErrors st \<longrightarrow> console w' = console w"
          "(\<forall>k\<in>set ks. val k \<noteq> Some []) \<and> all_inv st val (insert k K) (assign ?sid x sessions) pp (console w)
              \<longrightarrow> all_inv st val (insert k K \<union> set ks) sessions' pp' (console w')"
          by blast
        have "all_forEach st chunk (map val (k # ks)) idx sessions pp w = (None, sessions', pp', w')"
          using Some False Parsed lt at r(1) by (simp add: Let_def)
        moreover have "(\<forall>k\<in>set (k # ks). val k \<noteq> Some []) \<and> all_inv st val K sessions pp (console w)
              \<longrightarrow> all_inv st val (K \<union> set (k # ks)) sessions' pp' (console w')"
          using r(6) inv_parsed [where val = val and k = k and K = K and s = sessions and pp = pp and W = "console w", OF Some Parsed] by (simp add: un)
        ultimately show ?thesis using r(2-5) by blast
      next
        case (ParseThrows e)
        let ?w = "if logErrors st then console_log (WarnInvalid k) w else w"
        have cw: "console ?w = (if logErrors st then console w @ [WarnInvalid k] else console w)"
          by (simp add: console_log_def)
        from Cons.IH [OF dr, of sessions pp ?w "insert k K"]
        obtain sessions' pp' w' where r:
          "all_forEach st chunk (map val ks) (Suc idx) sessions pp ?w = (None, sessions', pp', w')"
          "cstate w' = cstate ?w" "calls w' = calls ?w" "set (console ?w) \<subseteq> set (console w')"
          "\<not> logErrors st \<longrightarrow> console w' = console ?w"
          "(\<forall>k\<in>set ks. val k \<noteq> Some []) \<and> all_inv st val (insert k K) sessions pp (console ?w)
              \<longrightarrow> all_inv st val (insert k K \<union> set ks) sessions' pp' (console w')"
          by blast
        have "all_forEach st chunk (map val (k # ks)) idx sessions pp w = (None, sessions', pp', w')"
          using Some False ParseThrows lt at r(1) by (auto simp: Let_def)
        moreover have "(\<forall>k\<in>set (k # ks). val k \<noteq> Some []) \<and> all_inv st val K sessions pp (console w)
              \<longrightarrow> all_inv st val (K \<union> set (k # ks)) sessions' pp' (console w')"
          using r(6) inv_throws [where val = val and k = k and K = K and s = sessions and pp = pp and W = "console w", OF Some ParseThrows] by (simp add: un cw)
        moreover have "cstate w' = cstate w" "calls w' = calls w" "set (console w) \<subseteq> set (console w')"
          "\<not> logErrors st \<longrightarrow> console w' = console w"
          using r(2-5) by (auto simp: console_log_def split: if_splits)
        ultimately show ?thesis by blast
      next
        case (ParsePromise r')
        from Cons.IH [OF dr, of sessions "pp @ [(?sid, k, r')]" w "insert k K"]
        obtain sessions' pp' w' where r:
          "all_forEach st chunk (map val ks) (Suc idx) sessions (pp @ [(?sid, k, r')]) w = (None, sessions', pp', w')"
          "cstate w' = cstate w" "calls w' = calls w" "set (console w) \<subseteq> set (console w')"
          "\<not> logErrors st \<longrightarrow> console w' = console w"
          "(\<forall>k\<in>set ks. val k \<noteq> Some []) \<and> all_inv st val (insert k K) sessions (pp @ [(?sid, k, r')]) (console w)
              \<longrightarrow> all_inv st val (insert k K \<union> set ks) sessions' pp' (console w')"
          by blast
        have "all_forEach st chunk (map val (k # ks)) idx sessions pp w = (None, sessions', pp', w')"
          using Some False ParsePromise lt at r(1) by (simp add: Let_def)
        moreover have "(\<forall>k\<in>set (k # ks). val k \<noteq> Some []) \<and> all_inv st val K sessions pp (console w)
              \<longrightarrow> all_inv st val (K \<union> set (k # ks)) sessions' pp' (console w')"
          using r(6) inv_promise [where val = val and k = k and K = K and s = sessions and pp = pp and W = "console w", OF Some ParsePromise] by (simp add: un)
        ultimately show ?thesis using r(2-5) by blast
      qed
    qed
  qed
qed

lemma all_await_inv:
  "\<exists>sessions' w'.
      all_await st pp sessions w = (sessions', w')
    \<and> cstate w' = cstate w \<and> calls w' = calls w
    \<and> set (console w) \<subseteq> set (console w')
    \<and> (\<not> logErrors st \<longrightarrow> console w' = console w)
    \<and> (all_inv st val K sessions pp (console w) \<longrightarrow> all_inv st val K sessions' [] (console w'))"
proof (induction pp arbitrary: sessions w)
  case Nil
  then show ?case by simp
next
  case (Cons p pp)
  obtain sid k r where p: "p = (sid, k, r)" by (cases p)
  show ?case
  proof (cases r)
    case (Inl e)
    let ?w = "if logErrors st then console_log (WarnInvalid k) w else w"
    have cw: "console ?w = (if logErrors st then console w @ [WarnInvalid k] else console w)"
      by (simp add: console_log_def)
    from Cons.IH [of sessions ?w]
    obtain sessions' w' where r:
      "all_await st pp sessions ?w = (sessions', w')"
      "cstate w' = cstate ?w" "calls w' = calls ?w" "set (console ?w) \<subseteq> set (console w')"
      "\<not> logErrors st \<longrightarrow> console w' = console ?w"
      "all_inv st val K sessions pp (console ?w) \<longrightarrow> all_inv st val K sessions' [] (console w')"
      by blast
    have "all_await st (p # pp) sessions w = (sessions', w')" using p Inl r(1) by simp
    moreover have "all_inv st val K sessions (p # pp) (console w) \<longrightarrow> all_inv st val K sessions' [] (console w')"
      using r(6) inv_await_reject [of st val K sessions sid k e pp "console w"] p Inl by (simp add: cw)
    moreover have "cstate w' = cstate w" "calls w' = calls w" "set (console w) \<subseteq> set (console w')"
      "\<not> logErrors st \<longrightarrow> console w' = console w"
      using r(2-5) by (auto simp: console_log_def split: if_splits)
    ultimately show ?thesis by blast
  next
    case (Inr x)
    from Cons.IH [of "assign sid x sessions" w]
    obtain sessions' w' where r:
      "all_await st pp (assign sid x sessions) w = (sessions', w')"
      "cstate w' = cstate w" "calls w' = calls w" "set (console w) \<subseteq> set (console w')"
      "\<not> logErrors st \<longrightarrow> console w' = console w"
      "all_inv st val K (assign sid x sessions) pp (console w) \<longrightarrow> all_inv st val K sessions' [] (console w')"
      by blast
    have "all_await st (p # pp) sessions w = (sessions', w')" using p Inr r(1) by simp
    moreover have "all_inv st val K sessions (p # pp) (console w) \<longrightarrow> all_inv st val K sessions' [] (console w')"
      using r(6) inv_await_resolve [of st val K sessions sid k x pp "console w"] p Inr by simp
    ultimately show ?thesis using r(2-5) by blast
  qed
qed

lemma double_cmget:
  assumes "d_fail d (CMget ks) = None"
  shows "cmget (double_client cluster) ks d = (Inr (map (stored d) ks), d)"
  using assms by (simp add: double_client_def stored_def)

lemma double_cmget_rejects:
  assumes "d_fail d (CMget ks) = Some e"
  shows "cmget (double_client cluster) ks d = (Inl e, d)"
  using assms by (simp add: double_client_def)

lemma chunk_shift:
  "take MAX_BATCH_SIZE (drop (j * MAX_BATCH_SIZE) (drop MAX_BATCH_SIZE keys)) =
   take MAX_BATCH_SIZE (drop (Suc j * MAX_BATCH_SIZE) keys)"
  by (simp add: add.commute)

lemma all_onBatch_double:
  assumes "\<forall>j. j * MAX_BATCH_SIZE < length keys \<longrightarrow>
             d_fail (cstate w) (CMget (take MAX_BATCH_SIZE (drop (j * MAX_BATCH_SIZE) keys))) = None"
  shows "\<exists>sessions' tp' w'.
           all_onBatch st (double_client cluster) keys (sessions, tp) w = (None, (sessions', tp'), w')
         \<and> cstate w' = cstate w
         \<and> set (console w) \<subseteq> set (console w')
         \<and> (\<not> logErrors st \<longrightarrow> console w' = console w)
         \<and> ((\<forall>k\<in>set keys. stored (cstate w) k \<noteq> Some [])
               \<and> all_inv st (stored (cstate w)) K sessions [] (console w)
              \<longrightarrow> all_inv st (stored (cstate w)) (K \<union> set keys) sessions' [] (console w'))"
  using assms
proof (induction keys arbitrary: sessions tp w K rule: length_induct)
  case (1 keys)
  let ?cl = "double_client cluster"
  let ?val = "stored (cstate w)"
  show ?case
  proof (cases "keys = []")
    case True
    then show ?thesis by (simp add: all_onBatch_empty)
  next
    case False
    let ?chunk = "take MAX_BATCH_SIZE keys"
    let ?rest = "drop MAX_BATCH_SIZE keys"
    from False "1.prems" have "d_fail (cstate w) (CMget ?chunk) = None"
      by (metis drop0 length_greater_0_conv mult_zero_left)
    from double_cmget [OF this, of cluster]
    have m: "client_mget ?cl ?chunk w = (Inr (map ?val ?chunk), w\<lparr>calls := calls w @ [CMget ?chunk]\<rparr>)"
      by (simp add: client_mget_def)
    let ?w1 = "w\<lparr>calls := calls w @ [CMget ?chunk]\<rparr>"
    from all_forEach_aligned [of 0 ?chunk ?chunk st ?val sessions "[]" ?w1 K]
    obtain sessions1 pp w2 where fe:
      "all_forEach st ?chunk (map ?val ?chunk) 0 sessions [] ?w1 = (None, sessions1, pp, w2)"
      "cstate w2 = cstate w" "set (console w) \<subseteq> set (console w2)"
      "\<not> logErrors st \<longrightarrow> console w2 = console w"
      "(\<forall>k\<in>set ?chunk. ?val k \<noteq> Some []) \<and> all_inv st ?val K sessions [] (console w)
              \<longrightarrow> all_inv st ?val (K \<union> set ?chunk) sessions1 pp (console w2)"
      by auto
    from all_await_inv [of st pp sessions1 w2 ?val "K \<union> set ?chunk"]
    obtain sessions2 w3 where aw:
      "all_await st pp sessions1 w2 = (sessions2, w3)"
      "cstate w3 = cstate w2" "set (console w2) \<subseteq> set (console w3)"
      "\<not> logErrors st \<longrightarrow> console w3 = console w2"
      "all_inv st ?val (K \<union> set ?chunk) sessions1 pp (console w2)
         \<longrightarrow> all_inv st ?val (K \<union> set ?chunk) sessions2 [] (console w3)"
      by blast
    define tp2 where "tp2 = tp + length ?chunk"
    define w4 where "w4 = (if tp2 > 10000 \<and> logErrors st then console_log (WarnLarge tp2) w3 else w3)"
    have w4: "cstate w4 = cstate w" "set (console w3) \<subseteq> set (console w4)"
      "\<not> logErrors st \<longrightarrow> console w4 = console w3"
      using aw(2) fe(2) by (auto simp: w4_def console_log_def)
    have step: "all_onBatch st ?cl keys (sessions, tp) w = all_onBatch st ?cl ?rest (sessions2, tp2) w4"
      unfolding w4_def
      by (rule all_onBatch_step [OF False m _ aw(1)]) (simp_all add: fe(1) tp2_def)
    have len: "length ?rest < length keys" using False by (simp add: MAX_BATCH_SIZE_def)
    have nf: "\<forall>j. j * MAX_BATCH_SIZE < length ?rest \<longrightarrow>
             d_fail (cstate w4) (CMget (take MAX_BATCH_SIZE (drop (j * MAX_BATCH_SIZE) ?rest))) = None"
    proof (intro allI impI)
      fix j assume "j * MAX_BATCH_SIZE < length ?rest"
      then have "Suc j * MAX_BATCH_SIZE < length keys" by simp
      with "1.prems" have "d_fail (cstate w) (CMget (take MAX_BATCH_SIZE (drop (Suc j * MAX_BATCH_SIZE) keys))) = None"
        by blast
      then show "d_fail (cstate w4) (CMget (take MAX_BATCH_SIZE (drop (j * MAX_BATCH_SIZE) ?rest))) = None"
        by (simp only: chunk_shift w4(1))
    qed
    from "1.IH" [rule_format, OF len nf [rule_format], of sessions2 tp2 "K \<union> set ?chunk"]
    obtain sessions' tp' w' where r:
      "all_onBatch st ?cl ?rest (sessions2, tp2) w4 = (None, (sessions', tp'), w')"
      "cstate w' = cstate w4" "set (console w4) \<subseteq> set (console w')"
      "\<not> logErrors st \<longrightarrow> console w' = console w4"
      "(\<forall>k\<in>set ?rest. stored (cstate w4) k \<noteq> Some [])
               \<and> all_inv st (stored (cstate w4)) (K \<union> set ?chunk) sessions2 [] (console w4)
              \<longrightarrow> all_inv st (stored (cstate w4)) (K \<union> set ?chunk \<union> set ?rest) sessions' [] (console w')"
      by blast
    have su: "K \<union> set ?chunk \<union> set ?rest = K \<union> set keys"
      by (metis Un_assoc append_take_drop_id set_append)
    have inv: "(\<forall>k\<in>set keys. ?val k \<noteq> Some []) \<and> all_inv st ?val K sessions [] (console w)
              \<longrightarrow> all_inv st ?val (K \<union> set keys) sessions' [] (console w')"
    proof
      assume h: "(\<forall>k\<in>set keys. ?val k \<noteq> Some []) \<and> all_inv st ?val K sessions [] (console w)"
      then have ne1: "\<forall>k\<in>set ?chunk. ?val k \<noteq> Some []" and ne2: "\<forall>k\<in>set ?rest. ?val k \<noteq> Some []"
        by (meson in_set_takeD in_set_dropD)+
      from h ne1 fe(5) aw(5) have "all_inv st ?val (K \<union> set ?chunk) sessions2 [] (console w3)" by blast
      then have "all_inv st ?val (K \<union> set ?chunk) sessions2 [] (console w4)"
        by (rule inv_console_mono) (rule w4(2))
      with r(5) ne2 w4(1) su show "all_inv st ?val (K \<union> set keys) sessions' [] (console w')" by simp
    qed
    have "all_onBatch st ?cl keys (sessions, tp) w = (None, (sessions', tp'), w')"
      using step r(1) by simp
    moreover have "cstate w' = cstate w" using r(2) w4(1) by simp
    moreover have "set (console w) \<subseteq> set (console w')"
      using fe(3) aw(3) w4(2) r(3) by blast
    moreover have "\<not> logErrors st \<longrightarrow> console w' = console w"
      using fe(4) aw(4) w4(3) r(4) by simp
    ultimately show ?thesis using inv by blast
  qed
qed

lemma all_onBatch_double_rejects:
  assumes "j * MAX_BATCH_SIZE < length keys"
    and "take MAX_BATCH_SIZE (drop (j * MAX_BATCH_SIZE) keys) = bad"
    and "\<forall>x. d_fail (cstate w) (CMget x) = (if x = bad then Some e else None)"
  shows "\<exists>s' w'. all_onBatch st (double_client cluster) keys s w = (Some e, s', w')"
  using assms
proof (induction j arbitrary: keys s w)
  case 0
  then have ne: "keys \<noteq> []" and "d_fail (cstate w) (CMget (take MAX_BATCH_SIZE keys)) = Some e" by auto
  from double_cmget_rejects [OF this(2), of cluster]
  have "client_mget (double_client cluster) (take MAX_BATCH_SIZE keys) w =
          (Inl e, w\<lparr>calls := calls w @ [CMget (take MAX_BATCH_SIZE keys)]\<rparr>)"
    by (simp add: client_mget_def)
  from all_onBatch_mget_rejects [OF ne this] show ?case by blast
next
  case (Suc j)
  let ?cl = "double_client cluster"
  let ?chunk = "take MAX_BATCH_SIZE keys"
  let ?rest = "drop MAX_BATCH_SIZE keys"
  from Suc.prems(1) have ne: "keys \<noteq> []" by auto
  show ?case
  proof (cases "?chunk = bad")
    case True
    with Suc.prems(3) have "d_fail (cstate w) (CMget ?chunk) = Some e" by simp
    from double_cmget_rejects [OF this, of cluster]
    have "client_mget ?cl ?chunk w = (Inl e, w\<lparr>calls := calls w @ [CMget ?chunk]\<rparr>)"
      by (simp add: client_mget_def)
    from all_onBatch_mget_rejects [OF ne this] show ?thesis by blast
  next
    case False
    with Suc.prems(3) have "d_fail (cstate w) (CMget ?chunk) = None" by simp
    from double_cmget [OF this, of cluster]
    have m: "client_mget ?cl ?chunk w = (Inr (map (stored (cstate w)) ?chunk), w\<lparr>calls := calls w @ [CMget ?chunk]\<rparr>)"
      by (simp add: client_mget_def)
    let ?w1 = "w\<lparr>calls := calls w @ [CMget ?chunk]\<rparr>"
    from all_forEach_aligned [of 0 ?chunk ?chunk st "stored (cstate w)" "fst s" "[]" ?w1 "{}"]
    obtain sessions1 pp w2 where fe:
      "all_forEach st ?chunk (map (stored (cstate w)) ?chunk) 0 (fst s) [] ?w1 = (None, sessions1, pp, w2)"
      "cstate w2 = cstate w" by auto
    from all_await_inv [of st pp sessions1 w2 "stored (cstate w)" "{}"]
    obtain sessions2 w3 where aw: "all_await st pp sessions1 w2 = (sessions2, w3)" "cstate w3 = cstate w2"
      by blast
    define tp2 where "tp2 = snd s + length ?chunk"
    define w4 where "w4 = (if tp2 > 10000 \<and> logErrors st then console_log (WarnLarge tp2) w3 else w3)"
    have w4: "cstate w4 = cstate w" using aw(2) fe(2) by (simp add: w4_def console_log_def)
    have step: "all_onBatch st ?cl keys s w = all_onBatch st ?cl ?rest (sessions2, tp2) w4"
      unfolding w4_def
      by (rule all_onBatch_step [OF ne m fe(1) aw(1) tp2_def])
    have a1: "j * MAX_BATCH_SIZE < length ?rest" using Suc.prems(1) by simp
    have a2: "take MAX_BATCH_SIZE (drop (j * MAX_BATCH_SIZE) ?rest) = bad"
      using Suc.prems(2) by (simp only: chunk_shift)
    have a3: "\<forall>x. d_fail (cstate w4) (CMget x) = (if x = bad then Some e else None)"
      using Suc.prems(3) w4 by simp
    from Suc.IH [OF a1 a2 a3, of "(sessions2, tp2)"] step show ?thesis by simp
  qed
qed

lemma loop_double_step:
  assumes "d_fail (cstate w) (CScan cur pat n) = None" and "d_pages (cstate w) = (c1, k1) # ps"
    and "w1 = w\<lparr>cstate := (cstate w)\<lparr>d_pages := ps\<rparr>, calls := calls w @ [CScan cur pat n]\<rparr>"
    and "(if k1 \<noteq> [] then onBatch k1 s w1 else (None, s, w1)) = (r, s', w2)"
  shows "scanAndProcessKeys_loop (double_client cluster) pat n onBatch cur s w =
           (case r of
              Some e \<Rightarrow> Some (Some e, s', w2)
            | None \<Rightarrow>
                if isCursorFinished c1 then Some (None, s', w2)
                else scanAndProcessKeys_loop (double_client cluster) pat n onBatch c1 s' w2)"
proof -
  have "client_scan (double_client cluster) cur pat n w = (Inr (c1, k1), w1)"
    using double_cscan_page [OF assms(1,2), of cluster] assms(3) by (simp add: client_scan_def)
  with assms(4) show ?thesis
    by (subst scanAndProcessKeys_loop.simps) (cases r; simp)
qed

lemma stored_pages [simp]: "stored (d\<lparr>d_pages := ps\<rparr>) = stored d"
  by (rule ext) (simp add: stored_def)

lemma loop_double_success:
  assumes "\<forall>p\<in>set pre. \<not> isCursorFinished (fst p)" and "isCursorFinished c"
    and "d_pages (cstate w) = pre @ (c, ks) # rest"
    and "\<forall>x. d_fail (cstate w) x = None"
    and "stored (cstate w) = val"
  shows "\<exists>sessions' tp' w'.
           scanAndProcessKeys_loop (double_client cluster) pat n (all_onBatch st (double_client cluster))
             cur (sessions, tp) w = Some (None, (sessions', tp'), w')
         \<and> (\<not> logErrors st \<longrightarrow> console w' = console w)
         \<and> ((\<forall>k\<in>set (concat (map snd pre) @ ks). val k \<noteq> Some [])
               \<and> all_inv st val K sessions [] (console w)
              \<longrightarrow> all_inv st val (K \<union> set (concat (map snd pre) @ ks)) sessions' [] (console w'))"
  using assms
proof (induction pre arbitrary: cur sessions tp w K)
  case Nil
  let ?cl = "double_client cluster"
  let ?w1 = "w\<lparr>cstate := (cstate w)\<lparr>d_pages := rest\<rparr>, calls := calls w @ [CScan cur pat n]\<rparr>"
  have pg: "d_pages (cstate w) = (c, ks) # rest" using Nil.prems by simp
  have sc: "d_fail (cstate w) (CScan cur pat n) = None" using Nil.prems by simp
  have nf: "\<forall>j. j * MAX_BATCH_SIZE < length ks \<longrightarrow>
             d_fail (cstate ?w1) (CMget (take MAX_BATCH_SIZE (drop (j * MAX_BATCH_SIZE) ks))) = None"
    using Nil.prems by simp
  have v1: "stored (cstate ?w1) = val" using Nil.prems by simp
  from all_onBatch_double [OF nf, of st cluster sessions tp K]
  obtain sessions' tp' w' where b:
    "all_onBatch st ?cl ks (sessions, tp) ?w1 = (None, (sessions', tp'), w')"
    "\<not> logErrors st \<longrightarrow> console w' = console ?w1"
    "(\<forall>k\<in>set ks. val k \<noteq> Some []) \<and> all_inv st val K sessions [] (console ?w1)
       \<longrightarrow> all_inv st val (K \<union> set ks) sessions' [] (console w')"
    unfolding v1 by blast
  show ?case
  proof (cases "ks = []")
    case True
    have "(if ks \<noteq> [] then all_onBatch st ?cl ks (sessions, tp) ?w1 else (None, (sessions, tp), ?w1))
            = (None, (sessions, tp), ?w1)" using True by simp
    from loop_double_step [where onBatch = "all_onBatch st ?cl" and s = "(sessions, tp)" and cluster = cluster, OF sc pg refl this] Nil.prems(2) True
    show ?thesis by simp
  next
    case False
    have "(if ks \<noteq> [] then all_onBatch st ?cl ks (sessions, tp) ?w1 else (None, (sessions, tp), ?w1))
            = (None, (sessions', tp'), w')" using False b(1) by simp
    from loop_double_step [where onBatch = "all_onBatch st ?cl" and s = "(sessions, tp)" and cluster = cluster, OF sc pg refl this] Nil.prems(2) b(2,3)
    show ?thesis by simp
  qed
next
  case (Cons p pre)
  let ?cl = "double_client cluster"
  obtain c1 k1 where p: "p = (c1, k1)" by (cases p)
  let ?ps = "pre @ (c, ks) # rest"
  let ?w1 = "w\<lparr>cstate := (cstate w)\<lparr>d_pages := ?ps\<rparr>, calls := calls w @ [CScan cur pat n]\<rparr>"
  have pg: "d_pages (cstate w) = (c1, k1) # ?ps" using Cons.prems p by simp
  have sc: "d_fail (cstate w) (CScan cur pat n) = None" using Cons.prems by simp
  have nfin: "\<not> isCursorFinished c1" using Cons.prems p by simp
  have nf: "\<forall>j. j * MAX_BATCH_SIZE < length k1 \<longrightarrow>
             d_fail (cstate ?w1) (CMget (take MAX_BATCH_SIZE (drop (j * MAX_BATCH_SIZE) k1))) = None"
    using Cons.prems by simp
  have v1: "stored (cstate ?w1) = val" using Cons.prems by simp
  from all_onBatch_double [OF nf, of st cluster sessions tp K]
  obtain sessions1 tp1 w2 where b:
    "all_onBatch st ?cl k1 (sessions, tp) ?w1 = (None, (sessions1, tp1), w2)"
    "cstate w2 = cstate ?w1"
    "\<not> logErrors st \<longrightarrow> console w2 = console ?w1"
    "(\<forall>k\<in>set k1. val k \<noteq> Some []) \<and> all_inv st val K sessions [] (console ?w1)
       \<longrightarrow> all_inv st val (K \<union> set k1) sessions1 [] (console w2)"
    unfolding v1 by blast
  define s2 where "s2 = (if k1 \<noteq> [] then (sessions1, tp1) else (sessions, tp))"
  define w3 where "w3 = (if k1 \<noteq> [] then w2 else ?w1)"
  have ob: "(if k1 \<noteq> [] then all_onBatch st ?cl k1 (sessions, tp) ?w1 else (None, (sessions, tp), ?w1))
            = (None, s2, w3)" using b(1) by (simp add: s2_def w3_def)
  have step: "scanAndProcessKeys_loop ?cl pat n (all_onBatch st ?cl) cur (sessions, tp) w =
              scanAndProcessKeys_loop ?cl pat n (all_onBatch st ?cl) c1 s2 w3"
    using loop_double_step [where onBatch = "all_onBatch st ?cl" and s = "(sessions, tp)" and cluster = cluster, OF sc pg refl ob] nfin by simp
  have c3: "cstate w3 = cstate ?w1" using b(2) by (simp add: w3_def)
  have con: "\<not> logErrors st \<longrightarrow> console w3 = console w" using b(3) by (simp add: w3_def)
  have inv3: "(\<forall>k\<in>set k1. val k \<noteq> Some []) \<and> all_inv st val K sessions [] (console w)
       \<longrightarrow> all_inv st val (K \<union> set k1) (fst s2) [] (console w3)"
    using b(4) by (auto simp: s2_def w3_def)
  have a1: "\<forall>p\<in>set pre. \<not> isCursorFinished (fst p)" using Cons.prems by simp
  have a3: "d_pages (cstate w3) = pre @ (c, ks) # rest" using c3 by simp
  have a4: "\<forall>x. d_fail (cstate w3) x = None" using c3 Cons.prems by simp
  have a5: "stored (cstate w3) = val" using c3 Cons.prems by simp
  from Cons.IH [OF a1 Cons.prems(2) a3 a4 a5, of c1 "fst s2" "snd s2" "K \<union> set k1"]
  have "\<exists>sessions' tp' w'.
    scanAndProcessKeys_loop ?cl pat n (all_onBatch st ?cl) c1 s2 w3 = Some (None, (sessions', tp'), w')
    \<and> (\<not> logErrors st \<longrightarrow> console w' = console w3)
    \<and> ((\<forall>k\<in>set (concat (map snd pre) @ ks). val k \<noteq> Some [])
               \<and> all_inv st val (K \<union> set k1) (fst s2) [] (console w3)
              \<longrightarrow> all_inv st val (K \<union> set k1 \<union> set (concat (map snd pre) @ ks)) sessions' [] (console w'))"
    unfolding prod.collapse .
  then obtain sessions' tp' w' where r:
    "scanAndProcessKeys_loop ?cl pat n (all_onBatch st ?cl) c1 s2 w3 = Some (None, (sessions', tp'), w')"
    "\<not> logErrors st \<longrightarrow> console w' = console w3"
    "(\<forall>k\<in>set (concat (map snd pre) @ ks). val k \<noteq> Some [])
               \<and> all_inv st val (K \<union> set k1) (fst s2) [] (console w3)
              \<longrightarrow> all_inv st val (K \<union> set k1 \<union> set (concat (map snd pre) @ ks)) sessions' [] (console w')"
    by blast
  have su: "K \<union> set k1 \<union> set (concat (map snd pre) @ ks) = K \<union> set (concat (map snd (p # pre)) @ ks)"
    using p by auto
  have "(\<forall>k\<in>set (concat (map snd (p # pre)) @ ks). val k \<noteq> Some [])
               \<and> all_inv st val K sessions [] (console w)
              \<longrightarrow> all_inv st val (K \<union> set (concat (map snd (p # pre)) @ ks)) sessions' [] (console w')"
    using inv3 r(3) p unfolding su [symmetric] by auto
  with step r(1,2) con show ?case by simp
qed

lemma double_cscan_rejects:
  assumes "d_fail d (CScan cur pat n) = Some e"
  shows "cscan (double_client cluster) cur pat n d = (Inl e, d)"
  using assms by (simp add: double_client_def)

lemma loop_double_scan_rejects:
  assumes "\<forall>p\<in>set pre. \<not> isCursorFinished (fst p)"
    and "d_pages (cstate w) = pre @ rest"
    and "last (cur # map fst pre) = bad"
    and "\<forall>x. d_fail (cstate w) x = (if x = CScan bad pat n then Some e else None)"
  shows "\<exists>s' w'. scanAndProcessKeys_loop (double_client cluster) pat n
                   (all_onBatch st (double_client cluster)) cur s w = Some (Some e, s', w')"
  using assms
proof (induction pre arbitrary: cur s w)
  case Nil
  then have "d_fail (cstate w) (CScan cur pat n) = Some e" by simp
  from double_cscan_rejects [OF this, of cluster]
  show ?case by (subst scanAndProcessKeys_loop.simps) (simp add: client_scan_def)
next
  case (Cons p pre)
  let ?cl = "double_client cluster"
  obtain c1 k1 where p: "p = (c1, k1)" by (cases p)
  show ?case
  proof (cases "cur = bad")
    case True
    with Cons.prems have "d_fail (cstate w) (CScan cur pat n) = Some e" by simp
    from double_cscan_rejects [OF this, of cluster]
    show ?thesis by (subst scanAndProcessKeys_loop.simps) (simp add: client_scan_def)
  next
    case False
    let ?ps = "pre @ rest"
    let ?w1 = "w\<lparr>cstate := (cstate w)\<lparr>d_pages := ?ps\<rparr>, calls := calls w @ [CScan cur pat n]\<rparr>"
    have pg: "d_pages (cstate w) = (c1, k1) # ?ps" using Cons.prems p by simp
    have sc: "d_fail (cstate w) (CScan cur pat n) = None" using Cons.prems False by simp
    have nfin: "\<not> isCursorFinished c1" using Cons.prems p by simp
    have nf: "\<forall>j. j * MAX_BATCH_SIZE < length k1 \<longrightarrow>
             d_fail (cstate ?w1) (CMget (take MAX_BATCH_SIZE (drop (j * MAX_BATCH_SIZE) k1))) = None"
      using Cons.prems by simp
    obtain ss tt where s: "s = (ss, tt)" by (cases s)
    from all_onBatch_double [OF nf, of st cluster ss tt "{}"]
    obtain sessions1 tp1 w2 where b:
      "all_onBatch st ?cl k1 (ss, tt) ?w1 = (None, (sessions1, tp1), w2)" "cstate w2 = cstate ?w1"
      by blast
    define s2 where "s2 = (if k1 \<noteq> [] then (sessions1, tp1) else (ss, tt))"
    define w3 where "w3 = (if k1 \<noteq> [] then w2 else ?w1)"
    have ob: "(if k1 \<noteq> [] then all_onBatch st ?cl k1 (ss, tt) ?w1 else (None, (ss, tt), ?w1))
            = (None, s2, w3)" using b(1) by (simp add: s2_def w3_def)
    have step: "scanAndProcessKeys_loop ?cl pat n (all_onBatch st ?cl) cur s w =
              scanAndProcessKeys_loop ?cl pat n (all_onBatch st ?cl) c1 s2 w3"
      using loop_double_step [where onBatch = "all_onBatch st ?cl" and s = "(ss, tt)" and cluster = cluster,
              OF sc pg refl ob] nfin s by simp
    have c3: "cstate w3 = cstate ?w1" using b(2) by (simp add: w3_def)
    have a1: "\<forall>p\<in>set pre. \<not> isCursorFinished (fst p)" using Cons.prems by simp
    have a2: "d_pages (cstate w3) = pre @ rest" using c3 by simp
    have a3: "last (c1 # map fst pre) = bad" using Cons.prems(3) p by simp
    have a4: "\<forall>x. d_fail (cstate w3) x = (if x = CScan bad pat n then Some e else None)"
      using c3 Cons.prems(4) by simp
    from Cons.IH [OF a1 a2 a3 a4, of s2] step show ?thesis by simp
  qed
qed

lemma loop_double_mget_rejects:
  assumes "\<forall>p\<in>set pre. \<not> isCursorFinished (fst p)"
    and "d_pages (cstate w) = pre @ (c, ks) # rest"
    and "j * MAX_BATCH_SIZE < length ks"
    and "take MAX_BATCH_SIZE (drop (j * MAX_BATCH_SIZE) ks) = bad"
    and "\<forall>x. d_fail (cstate w) x = (if x = CMget bad then Some e else None)"
  shows "\<exists>s' w'. scanAndProcessKeys_loop (double_client cluster) pat n
                   (all_onBatch st (double_client cluster)) cur s w = Some (Some e, s', w')"
  using assms
proof (induction pre arbitrary: cur s w)
  case Nil
  let ?cl = "double_client cluster"
  let ?w1 = "w\<lparr>cstate := (cstate w)\<lparr>d_pages := rest\<rparr>, calls := calls w @ [CScan cur pat n]\<rparr>"
  have pg: "d_pages (cstate w) = (c, ks) # rest" using Nil.prems by simp
  have sc: "d_fail (cstate w) (CScan cur pat n) = None" using Nil.prems by simp
  have ne: "ks \<noteq> []" using Nil.prems(3) by auto
  have df: "\<forall>x. d_fail (cstate ?w1) (CMget x) = (if x = bad then Some e else None)"
    using Nil.prems(5) by simp
  from all_onBatch_double_rejects [OF Nil.prems(3,4) df, of st cluster s]
  obtain s' w' where "all_onBatch st ?cl ks s ?w1 = (Some e, s', w')" by blast
  with ne have "(if ks \<noteq> [] then all_onBatch st ?cl ks s ?w1 else (None, s, ?w1)) = (Some e, s', w')"
    by simp
  from loop_double_step [where onBatch = "all_onBatch st ?cl" and s = s and cluster = cluster,
          OF sc pg refl this]
  show ?case by simp
next
  case (Cons p pre)
  let ?cl = "double_client cluster"
  obtain c1 k1 where p: "p = (c1, k1)" by (cases p)
  let ?ps = "pre @ (c, ks) # rest"
  let ?w1 = "w\<lparr>cstate := (cstate w)\<lparr>d_pages := ?ps\<rparr>, calls := calls w @ [CScan cur pat n]\<rparr>"
  have pg: "d_pages (cstate w) = (c1, k1) # ?ps" using Cons.prems p by simp
  have sc: "d_fail (cstate w) (CScan cur pat n) = None" using Cons.prems by simp
  have nfin: "\<not> isCursorFinished c1" using Cons.prems p by simp
  have df: "\<forall>x. d_fail (cstate ?w1) (CMget x) = (if x = bad then Some e else None)"
    using Cons.prems(5) by simp
  show ?case
  proof (cases "\<exists>i. i * MAX_BATCH_SIZE < length k1 \<and> take MAX_BATCH_SIZE (drop (i * MAX_BATCH_SIZE) k1) = bad")
    case True
    then obtain i where i: "i * MAX_BATCH_SIZE < length k1"
      "take MAX_BATCH_SIZE (drop (i * MAX_BATCH_SIZE) k1) = bad" by blast
    then have ne: "k1 \<noteq> []" by auto
    from all_onBatch_double_rejects [OF i df, of st cluster s]
    obtain s' w' where "all_onBatch st ?cl k1 s ?w1 = (Some e, s', w')" by blast
    with ne have "(if k1 \<noteq> [] then all_onBatch st ?cl k1 s ?w1 else (None, s, ?w1)) = (Some e, s', w')"
      by simp
    from loop_double_step [where onBatch = "all_onBatch st ?cl" and s = s and cluster = cluster,
            OF sc pg refl this]
    show ?thesis by simp
  next
    case False
    with df have nf: "\<forall>j. j * MAX_BATCH_SIZE < length k1 \<longrightarrow>
             d_fail (cstate ?w1) (CMget (take MAX_BATCH_SIZE (drop (j * MAX_BATCH_SIZE) k1))) = None"
      by auto
    obtain ss tt where s: "s = (ss, tt)" by (cases s)
    from all_onBatch_double [OF nf, of st cluster ss tt "{}"]
    obtain sessions1 tp1 w2 where b:
      "all_onBatch st ?cl k1 (ss, tt) ?w1 = (None, (sessions1, tp1), w2)" "cstate w2 = cstate ?w1"
      by blast
    define s2 where "s2 = (if k1 \<noteq> [] then (sessions1, tp1) else (ss, tt))"
    define w3 where "w3 = (if k1 \<noteq> [] then w2 else ?w1)"
    have ob: "(if k1 \<noteq> [] then all_onBatch st ?cl k1 (ss, tt) ?w1 else (None, (ss, tt), ?w1))
            = (None, s2, w3)" using b(1) by (simp add: s2_def w3_def)
    have step: "scanAndProcessKeys_loop ?cl pat n (all_onBatch st ?cl) cur s w =
              scanAndProcessKeys_loop ?cl pat n (all_onBatch st ?cl) c1 s2 w3"
      using loop_double_step [where onBatch = "all_onBatch st ?cl" and s = "(ss, tt)" and cluster = cluster,
              OF sc pg refl ob] nfin s by simp
    have c3: "cstate w3 = cstate ?w1" using b(2) by (simp add: w3_def)
    have a1: "\<forall>p\<in>set pre. \<not> isCursorFinished (fst p)" using Cons.prems by simp
    have a2: "d_pages (cstate w3) = pre @ (c, ks) # rest" using c3 by simp
    have a5: "\<forall>x. d_fail (cstate w3) x = (if x = CMget bad then Some e else None)"
      using c3 Cons.prems(5) by simp
    from Cons.IH [OF a1 a2 Cons.prems(3,4) a5, of c1 s2] step show ?thesis by simp
  qed
qed

lemma all_inv_initial: "all_inv st val {} empty_object [] W"
  by (simp add: all_inv_def empty_object_def)

lemma all_op_double_delivers:
  fixes st :: "'p ValkeyStore" and cl :: "'c client"
  assumes run: "scanAndProcessKeys_loop cl (prefix st @ ''*'') (scanCount st) (all_onBatch st cl)
                  (initial_cursor cl) (empty_object, 0) w = Some (r, s', w')"
    and f: "fresh_call w" and m: "cbo = None \<or> cbo = Some record_cb"
    and l: "r \<noteq> None \<longrightarrow> error_listener st"
  shows "\<exists>p. all_op st cl cbo w = Some p
          \<and> (cbo = None \<longrightarrow>
               settled p = Some (case r of Some e \<Rightarrow> Rejected e | None \<Rightarrow> Resolved (Val (fst s'))))
          \<and> (cbo = Some record_cb \<longrightarrow>
               cb_calls p = [(r, case r of Some e \<Rightarrow> Undefined | None \<Rightarrow> Val (fst s'))])
          \<and> events p = events w @ (case r of Some e \<Rightarrow> if cbo = None then [e, e] else [e] | None \<Rightarrow> [])
          \<and> unhandled p = unhandled w
          \<and> console p = console w' @ logged st r"
proof -
  from frame_scanAndProcessKeys_loop [OF run] frame_all_onBatch
  have fr: "events w' = events w" "cb_calls w' = cb_calls w" "settled w' = settled w"
    "unhandled w' = unhandled w"
    by (metis snd_conv)+
  with f have fr': "settled w' = None" "cb_calls w' = []" by (simp_all add: fresh_call_def)
  let ?data = "case r of Some e \<Rightarrow> Undefined | None \<Rightarrow> Val (fst s')"
  have fn: "\<And>cb. accepts cb r \<Longrightarrow> all_fn st cl cb w = Some (None, deliver st r ?data cb w')"
  proof -
    fix cb :: "('c, 'p sessions) callback"
    assume a: "accepts cb r"
    show "all_fn st cl cb w = Some (None, deliver st r ?data cb w')"
    proof (cases r)
      case None
      with run have r': "scanAndProcessKeys_loop cl (prefix st @ ''*'') (scanCount st) (all_onBatch st cl)
                  (initial_cursor cl) (empty_object, 0) w = Some (None, s', w')" by simp
      from a None have "accepts cb None" by simp
      from all_fn_collected [OF r' this] None show ?thesis by simp
    next
      case (Some e)
      with run have r': "scanAndProcessKeys_loop cl (prefix st @ ''*'') (scanCount st) (all_onBatch st cl)
                  (initial_cursor cl) (empty_object, 0) w = Some (Some e, s', w')" by simp
      from a Some have a': "accepts cb (Some e)" by simp
      from l Some have "error_listener st" by simp
      from all_fn_rejected [OF r' this a'] Some show ?thesis by simp
    qed
  qed
  show ?thesis
  proof (cases cbo)
    case None
    from optionalCb_promise_deliver [of r "all_fn st cl" w st ?data w', OF fn fr'(1) l] None fr(1,4)
    show ?thesis by (cases r) (auto simp: all_op_def)
  next
    case (Some g)
    with m have c: "cbo = Some record_cb" by simp
    from optionalCb_callback_deliver [of r "all_fn st cl" w st ?data w', OF fn fr'(1) l] c fr(1,4) fr'(2)
    show ?thesis by (cases r) (auto simp: all_op_def)
  qed
qed

lemma all_op_double_succeeds:
  assumes pg: "pages \<noteq> []" "\<forall>p\<in>set (butlast pages). \<not> isCursorFinished (fst p)"
      "isCursorFinished (fst (last pages))" "d_pages (cstate w) = pages @ rest"
    and nf: "no_failures (cstate w)"
    and f: "fresh_call w" and m: "cbo = None \<or> cbo = Some record_cb"
  shows "\<exists>p sessions. all_op st (double_client cluster) cbo w = Some p
        \<and> (cbo = None \<longrightarrow> settled p = Some (Resolved (Val sessions)))
        \<and> (cbo = Some record_cb \<longrightarrow> cb_calls p = [(None, Val sessions)])
        \<and> events p = events w \<and> unhandled p = unhandled w
        \<and> (\<not> logErrors st \<longrightarrow> console p = console w)
        \<and> ((\<forall>k\<in>set (concat (map snd pages)). stored (cstate w) k \<noteq> Some []) \<longrightarrow>
              all_inv st (stored (cstate w)) (set (concat (map snd pages))) sessions [] (console p))"
proof -
  let ?cl = "double_client cluster"
  obtain c ks where l: "last pages = (c, ks)" by (cases "last pages")
  with pg(1) have pe: "pages = butlast pages @ [(c, ks)]" by (metis append_butlast_last_id)
  have dp: "d_pages (cstate w) = butlast pages @ (c, ks) # rest"
    using pg(4) pe by (metis append_Cons append_Nil append_assoc)
  have cat: "concat (map snd (butlast pages)) @ ks = concat (map snd pages)"
    by (subst (2) pe) simp
  from pg(3) l have fin: "isCursorFinished c" by simp
  from nf have nf': "\<forall>x. d_fail (cstate w) x = None" by (simp add: no_failures_def)
  from loop_double_success [where cluster = cluster and pat = "prefix st @ ''*''" and n = "scanCount st"
         and st = st and cur = "initial_cursor ?cl" and sessions = empty_object and tp = 0 and K = "{}",
         OF pg(2) fin dp nf' refl]
  obtain sessions' tp' w' where r0:
    "scanAndProcessKeys_loop ?cl (prefix st @ ''*'') (scanCount st) (all_onBatch st ?cl)
       (initial_cursor ?cl) (empty_object, 0) w = Some (None, (sessions', tp'), w')"
    "\<not> logErrors st \<longrightarrow> console w' = console w"
    "(\<forall>k\<in>set (concat (map snd (butlast pages)) @ ks). stored (cstate w) k \<noteq> Some [])
       \<and> all_inv st (stored (cstate w)) {} empty_object [] (console w)
       \<longrightarrow> all_inv st (stored (cstate w)) ({} \<union> set (concat (map snd (butlast pages)) @ ks)) sessions' [] (console w')"
    by blast
  have r: "scanAndProcessKeys_loop ?cl (prefix st @ ''*'') (scanCount st) (all_onBatch st ?cl)
       (initial_cursor ?cl) (empty_object, 0) w = Some (None, (sessions', tp'), w')"
    "\<not> logErrors st \<longrightarrow> console w' = console w"
    "(\<forall>k\<in>set (concat (map snd pages)). stored (cstate w) k \<noteq> Some [])
       \<longrightarrow> all_inv st (stored (cstate w)) (set (concat (map snd pages))) sessions' [] (console w')"
    using r0 all_inv_initial [of st "stored (cstate w)" "console w"]
    by (simp_all only: cat Un_empty_left simp_thms)
  have ok: "(None :: error option) \<noteq> None \<longrightarrow> error_listener st" by simp
  from all_op_double_delivers [OF r(1) f m ok]
  obtain p where p: "all_op st ?cl cbo w = Some p"
    "cbo = None \<longrightarrow> settled p = Some (Resolved (Val sessions'))"
    "cbo = Some record_cb \<longrightarrow> cb_calls p = [(None, Val sessions')]"
    "events p = events w" "unhandled p = unhandled w" "console p = console w'"
    by (auto simp: logged_def)
  with r(2,3) show ?thesis by auto
qed

lemma all_op_double_scan_rejects:
  assumes "\<forall>p\<in>set pre. \<not> isCursorFinished (fst p)" and "d_pages (cstate w) = pre @ rest"
    and "\<forall>x. d_fail (cstate w) x =
           (if x = CScan (last (initial_cursor (double_client cluster) # map fst pre))
                     (prefix st @ ''*'') (scanCount st) then Some e else None)"
    and f: "fresh_call w" and m: "cbo = None \<or> cbo = Some record_cb"
    and l: "error_listener st"
  shows "\<exists>p. all_op st (double_client cluster) cbo w = Some p
        \<and> (cbo = None \<longrightarrow> settled p = Some (Rejected e))
        \<and> (cbo = Some record_cb \<longrightarrow> cb_calls p = [(Some e, Undefined)])"
proof -
  from loop_double_scan_rejects [where st = st and s = "(empty_object, 0)", OF assms(1,2) refl assms(3)]
  obtain s' w' where "scanAndProcessKeys_loop (double_client cluster) (prefix st @ ''*'') (scanCount st)
      (all_onBatch st (double_client cluster)) (initial_cursor (double_client cluster)) (empty_object, 0) w
      = Some (Some e, s', w')" by blast
  from all_op_double_delivers [OF this f m] l show ?thesis by auto
qed

lemma all_op_double_mget_rejects:
  assumes "\<forall>p\<in>set pre. \<not> isCursorFinished (fst p)" and "d_pages (cstate w) = pre @ (c, ks) # rest"
    and "j * MAX_BATCH_SIZE < length ks"
    and "\<forall>x. d_fail (cstate w) x =
           (if x = CMget (take MAX_BATCH_SIZE (drop (j * MAX_BATCH_SIZE) ks)) then Some e else None)"
    and f: "fresh_call w" and m: "cbo = None \<or> cbo = Some record_cb"
    and l: "error_listener st"
  shows "\<exists>p. all_op st (double_client cluster) cbo w = Some p
        \<and> (cbo = None \<longrightarrow> settled p = Some (Rejected e))
        \<and> (cbo = Some record_cb \<longrightarrow> cb_calls p = [(Some e, Undefined)])"
proof -
  from loop_double_mget_rejects [where cluster = cluster and pat = "prefix st @ ''*''" and n = "scanCount st"
         and st = st and cur = "initial_cursor (double_client cluster)" and s = "(empty_object, 0)",
         OF assms(1,2,3) refl assms(4)]
  obtain s' w' where "scanAndProcessKeys_loop (double_client cluster) (prefix st @ ''*'') (scanCount st)
      (all_onBatch st (double_client cluster)) (initial_cursor (double_client cluster)) (empty_object, 0) w
      = Some (Some e, s', w')" by blast
  from all_op_double_delivers [OF this f m] l show ?thesis by auto
qed

text \<open>
  C7 (amended). On a client double whose scan script ends at the first cursor passing the
  completion test, with no failing call and no empty stored value among the scanned keys,
  \<^verbatim>\<open>all\<close> succeeds in both calling conventions, emitting no event and leaving no
  rejection unhandled, with a result object whose own properties are exactly the
  parsable entries: every own property is the parsed value of a scanned key under the
  sid obtained by removing the prefix, and every scanned key with a parsable value and a
  sid other than \<^verbatim>\<open>__proto__\<close> has its sid among them. An entry whose value does not
  parse (the serializer throws, or its promise rejects) is skipped; its warning is on the
  console when \<open>logErrors\<close> is set, and the console is left as it was when \<open>logErrors\<close>
  is not set. On a store with a listener for \<^verbatim>\<open>"error"\<close>, a rejecting scan step, and a
  rejecting multi-get of any chunk of a page, fail the whole call with that error.
\<close>

theorem all_skips_unparsable:
  "(pages \<noteq> [] \<and> (\<forall>p\<in>set (butlast pages). \<not> isCursorFinished (fst p))
      \<and> isCursorFinished (fst (last pages)) \<and> d_pages (cstate w) = pages @ rest
      \<and> no_failures (cstate w)
      \<and> (\<forall>k\<in>set (concat (map snd pages)). stored (cstate w) k \<noteq> Some [])
      \<and> fresh_call w \<and> (cbo = None \<or> cbo = Some record_cb) \<longrightarrow>
    (\<exists>p sessions. all_op st (double_client cluster) cbo w = Some p
        \<and> (cbo = None \<longrightarrow> settled p = Some (Resolved (Val sessions)))
        \<and> (cbo = Some record_cb \<longrightarrow> cb_calls p = [(None, Val sessions)])
        \<and> events p = events w \<and> unhandled p = unhandled w
        \<and> (\<forall>sid s. own sessions sid = Some s \<longrightarrow>
              (\<exists>k\<in>set (concat (map snd pages)). \<exists>d. stored (cstate w) k = Some d
                  \<and> replace_first (prefix st) k = sid \<and> parsed_of st d = Some s))
        \<and> (\<forall>k\<in>set (concat (map snd pages)). \<forall>d s.
              stored (cstate w) k = Some d \<and> parsed_of st d = Some s
              \<and> replace_first (prefix st) k \<noteq> ''__proto__'' \<longrightarrow>
              replace_first (prefix st) k \<in> dom (own sessions))
        \<and> (logErrors st \<longrightarrow>
              (\<forall>k\<in>set (concat (map snd pages)). \<forall>d.
                 stored (cstate w) k = Some d \<and> parsed_of st d = None \<longrightarrow>
                 WarnInvalid k \<in> set (console p)))
        \<and> (\<not> logErrors st \<longrightarrow> console p = console w)))
   \<and> (error_listener st
      \<and> (\<forall>p\<in>set pre. \<not> isCursorFinished (fst p)) \<and> d_pages (cstate w) = pre @ rest
      \<and> (\<forall>x. d_fail (cstate w) x =
           (if x = CScan (last (initial_cursor (double_client cluster) # map fst pre))
                     (prefix st @ ''*'') (scanCount st) then Some e else None))
      \<and> fresh_call w \<and> (cbo = None \<or> cbo = Some record_cb) \<longrightarrow>
    (\<exists>p. all_op st (double_client cluster) cbo w = Some p
        \<and> (cbo = None \<longrightarrow> settled p = Some (Rejected e))
        \<and> (cbo = Some record_cb \<longrightarrow> cb_calls p = [(Some e, Undefined)])))
   \<and> (error_listener st
      \<and> (\<forall>p\<in>set pre. \<not> isCursorFinished (fst p)) \<and> d_pages (cstate w) = pre @ (c, ks) # rest
      \<and> j * MAX_BATCH_SIZE < length ks
      \<and> (\<forall>x. d_fail (cstate w) x =
           (if x = CMget (take MAX_BATCH_SIZE (drop (j * MAX_BATCH_SIZE) ks)) then Some e else None))
      \<and> fresh_call w \<and> (cbo = None \<or> cbo = Some record_cb) \<longrightarrow>
    (\<exists>p. all_op st (double_client cluster) cbo w = Some p
        \<and> (cbo = None \<longrightarrow> settled p = Some (Rejected e))
        \<and> (cbo = Some record_cb \<longrightarrow> cb_calls p = [(Some e, Undefined)])))"
proof (intro conjI impI)
  assume h: "pages \<noteq> [] \<and> (\<forall>p\<in>set (butlast pages). \<not> isCursorFinished (fst p))
      \<and> isCursorFinished (fst (last pages)) \<and> d_pages (cstate w) = pages @ rest
      \<and> no_failures (cstate w)
      \<and> (\<forall>k\<in>set (concat (map snd pages)). stored (cstate w) k \<noteq> Some [])
      \<and> fresh_call w \<and> (cbo = None \<or> cbo = Some record_cb)"
  then have a: "pages \<noteq> []" "\<forall>p\<in>set (butlast pages). \<not> isCursorFinished (fst p)"
      "isCursorFinished (fst (last pages))" "d_pages (cstate w) = pages @ rest"
      "no_failures (cstate w)" "fresh_call w" "cbo = None \<or> cbo = Some record_cb"
    and ne: "\<forall>k\<in>set (concat (map snd pages)). stored (cstate w) k \<noteq> Some []" by blast+
  from all_op_double_succeeds [where st = st and cluster = cluster, OF a] ne
  obtain p sessions where p: "all_op st (double_client cluster) cbo w = Some p"
    "cbo = None \<longrightarrow> settled p = Some (Resolved (Val sessions))"
    "cbo = Some record_cb \<longrightarrow> cb_calls p = [(None, Val sessions)]"
    "events p = events w" "unhandled p = unhandled w" "\<not> logErrors st \<longrightarrow> console p = console w"
    "all_inv st (stored (cstate w)) (set (concat (map snd pages))) sessions [] (console p)"
    by blast
  from p(7) have
    i1: "\<forall>sid s. own sessions sid = Some s \<longrightarrow>
              (\<exists>k\<in>set (concat (map snd pages)). \<exists>d. stored (cstate w) k = Some d
                  \<and> replace_first (prefix st) k = sid \<and> parsed_of st d = Some s)"
    and i2: "\<forall>k\<in>set (concat (map snd pages)). \<forall>d s.
              stored (cstate w) k = Some d \<and> parsed_of st d = Some s
              \<and> replace_first (prefix st) k \<noteq> ''__proto__'' \<longrightarrow>
              replace_first (prefix st) k \<in> dom (own sessions)"
    and i3: "logErrors st \<longrightarrow>
              (\<forall>k\<in>set (concat (map snd pages)). \<forall>d.
                 stored (cstate w) k = Some d \<and> parsed_of st d = None \<longrightarrow>
                 WarnInvalid k \<in> set (console p))"
    unfolding all_inv_def by (simp, simp, blast, simp)
  from p(1-6) i1 i2 i3
  show "\<exists>p sessions. all_op st (double_client cluster) cbo w = Some p
        \<and> (cbo = None \<longrightarrow> settled p = Some (Resolved (Val sessions)))
        \<and> (cbo = Some record_cb \<longrightarrow> cb_calls p = [(None, Val sessions)])
        \<and> events p = events w \<and> unhandled p = unhandled w
        \<and> (\<forall>sid s. own sessions sid = Some s \<longrightarrow>
              (\<exists>k\<in>set (concat (map snd pages)). \<exists>d. stored (cstate w) k = Some d
                  \<and> replace_first (prefix st) k = sid \<and> parsed_of st d = Some s))
        \<and> (\<forall>k\<in>set (concat (map snd pages)). \<forall>d s.
              stored (cstate w) k = Some d \<and> parsed_of st d = Some s
              \<and> replace_first (prefix st) k \<noteq> ''__proto__'' \<longrightarrow>
              replace_first (prefix st) k \<in> dom (own sessions))
        \<and> (logErrors st \<longrightarrow>
              (\<forall>k\<in>set (concat (map snd pages)). \<forall>d.
                 stored (cstate w) k = Some d \<and> parsed_of st d = None \<longrightarrow>
                 WarnInvalid k \<in> set (console p)))
        \<and> (\<not> logErrors st \<longrightarrow> console p = console w)"
    by blast
next
  assume "error_listener st
      \<and> (\<forall>p\<in>set pre. \<not> isCursorFinished (fst p)) \<and> d_pages (cstate w) = pre @ rest
      \<and> (\<forall>x. d_fail (cstate w) x =
           (if x = CScan (last (initial_cursor (double_client cluster) # map fst pre))
                     (prefix st @ ''*'') (scanCount st) then Some e else None))
      \<and> fresh_call w \<and> (cbo = None \<or> cbo = Some record_cb)"
  then show "\<exists>p. all_op st (double_client cluster) cbo w = Some p
        \<and> (cbo = None \<longrightarrow> settled p = Some (Rejected e))
        \<and> (cbo = Some record_cb \<longrightarrow> cb_calls p = [(Some e, Undefined)])"
    using all_op_double_scan_rejects [where pre = pre and w = w and rest = rest and cluster = cluster and st = st and e = e and cbo = cbo] by blast
next
  assume "error_listener st
      \<and> (\<forall>p\<in>set pre. \<not> isCursorFinished (fst p)) \<and> d_pages (cstate w) = pre @ (c, ks) # rest
      \<and> j * MAX_BATCH_SIZE < length ks
      \<and> (\<forall>x. d_fail (cstate w) x =
           (if x = CMget (take MAX_BATCH_SIZE (drop (j * MAX_BATCH_SIZE) ks)) then Some e else None))
      \<and> fresh_call w \<and> (cbo = None \<or> cbo = Some record_cb)"
  then show "\<exists>p. all_op st (double_client cluster) cbo w = Some p
        \<and> (cbo = None \<longrightarrow> settled p = Some (Rejected e))
        \<and> (cbo = Some record_cb \<longrightarrow> cb_calls p = [(Some e, Undefined)])"
    using all_op_double_mget_rejects [where pre = pre and w = w and c = c and ks = ks and rest = rest and j = j and e = e and cbo = cbo and st = st and cluster = cluster] by blast
qed

lemma junk_facts:
  "stored junk_double ''sess:a'' = Some ''{ok}''" "stored junk_double ''sess:b'' = Some ''garbage''"
  "parsed_of strict_store ''{ok}'' = Some \<lparr>cookie = None, payload = ''{ok}''\<rparr>"
  "parsed_of strict_store ''garbage'' = None" "parsed_of quiet_store ''garbage'' = None"
  "replace_first ''sess:'' ''sess:a'' = ''a''" "replace_first ''sess:'' ''sess:b'' = ''b''"
  by (simp_all add: stored_def junk_double_def empty_double_def parsed_of_def strict_store_def quiet_store_def bare_store_def)

lemmas all_eval_defs =
  all_op_def optionalCb_def promise_cb_def all_fn_def scanAndProcessKeys_def
  scanAndProcessKeys_loop.simps all_onBatch.simps client_scan_def client_mget_def
  double_client_def initial_cursor_def fresh_def empty_double_def
  strict_store_def bare_store_def MAX_BATCH_SIZE_def Let_def settle_def console_log_def
  handleError_def catch_handleError_def dropped_def emit_def record_cb_def assign_def
  empty_object_def

text \<open>
  C7 as stated fails in three places. On a store constructed with
  \<^verbatim>\<open>logErrors: false\<close> the unparsable entry is skipped and the call succeeds, but
  nothing is logged. A parsable entry whose sid is \<^verbatim>\<open>__proto__\<close> is not in the mapping
  returned: the assignment makes the record the prototype of the result object, which
  has no own property. And on a store without a listener for \<^verbatim>\<open>"error"\<close> a rejecting
  scan step does not fail the call: the promise stays pending, the callback is not called,
  and the exception \<^verbatim>\<open>emit\<close> throws ends as an unhandled rejection.
\<close>

theorem all_counterexample:
  "stored junk_double ''sess:b'' = Some ''garbage''
   \<and> parsed_of quiet_store ''garbage'' = None
   \<and> map_option settled (all_op quiet_store (double_client False) None (fresh junk_double))
       = Some (Some (Resolved (Val \<lparr>own = [''a'' \<mapsto> \<lparr>cookie = None, payload = ''{ok}''\<rparr>],
                                    proto = None\<rparr>)))
   \<and> map_option console (all_op quiet_store (double_client False) None
        (fresh junk_double :: (double, string sessions) world)) = Some []
   \<and> stored proto_double ''sess:__proto__'' = Some ''{ok}''
   \<and> parsed_of strict_store ''{ok}'' = Some \<lparr>cookie = None, payload = ''{ok}''\<rparr>
   \<and> replace_first (prefix strict_store) ''sess:__proto__'' = ''__proto__''
   \<and> map_option settled (all_op strict_store (double_client False) None (fresh proto_double))
       = Some (Some (Resolved (Val \<lparr>own = Map.empty,
                                    proto = Some \<lparr>cookie = None, payload = ''{ok}''\<rparr>\<rparr>)))
   \<and> \<not> error_listener strict_store
   \<and> map_option settled (all_op strict_store (double_client False) None
        (fresh scan_down_double :: (double, string sessions) world)) = Some None
   \<and> map_option unhandled (all_op strict_store (double_client False) None
        (fresh scan_down_double :: (double, string sessions) world))
       = Some [Error ''connection closed'']
   \<and> map_option cb_calls (all_op strict_store (double_client False) (Some record_cb)
        (fresh scan_down_double :: (double, string sessions) world)) = Some []"
  by (simp add: stored_def parsed_of_def all_eval_defs quiet_store_def junk_double_def
        proto_double_def scan_down_double_def)

text \<open>
  The three cases on concrete doubles: one unparsable entry skipped and logged, a
  rejecting scan step, a rejecting multi-get.
\<close>

theorem all_skips_unparsable_witness:
  "\<exists>p sessions.
      all_op strict_store (double_client False) None (fresh junk_double) = Some p
    \<and> settled p = Some (Resolved (Val sessions))
    \<and> dom (own sessions) = {''a''}
    \<and> WarnInvalid ''sess:b'' \<in> set (console p)
    \<and> events p = []
    \<and> (\<exists>q. all_op strict_listened_store (double_client False) None
               (fresh scan_down_double :: (double, string sessions) world) = Some q
           \<and> settled q = Some (Rejected (Error ''connection closed'')))
    \<and> (\<exists>q. all_op strict_listened_store (double_client False) None
               (fresh mget_down_double :: (double, string sessions) world) = Some q
           \<and> settled q = Some (Rejected (Error ''connection closed'')))"
proof -
  let ?w = "fresh junk_double :: (double, string sessions) world"
  let ?pages = "[(StringCursor ''0'', [''sess:a'', ''sess:b''])]"
  have cs: "cstate ?w = junk_double" by (simp add: fresh_def)
  have h: "?pages \<noteq> [] \<and> (\<forall>p\<in>set (butlast ?pages). \<not> isCursorFinished (fst p))
      \<and> isCursorFinished (fst (last ?pages)) \<and> d_pages (cstate ?w) = ?pages @ []
      \<and> no_failures (cstate ?w)
      \<and> (\<forall>k\<in>set (concat (map snd ?pages)). stored (cstate ?w) k \<noteq> Some [])
      \<and> fresh_call ?w \<and> ((None :: (double, string sessions) callback option) = None \<or> None = Some record_cb)"
    by (simp add: cs junk_facts)
       (simp add: junk_double_def empty_double_def no_failures_def fresh_call_def fresh_def)
  from all_skips_unparsable [where pages = ?pages and w = ?w and rest = "[]" and cbo = None
         and st = strict_store and cluster = False, THEN conjunct1, rule_format, OF h]
  obtain p sessions where p:
    "all_op strict_store (double_client False) None ?w = Some p"
    "settled p = Some (Resolved (Val sessions))"
    "events p = events ?w"
    "\<forall>sid s. own sessions sid = Some s \<longrightarrow>
        (\<exists>k\<in>set (concat (map snd ?pages)). \<exists>d. stored (cstate ?w) k = Some d
            \<and> replace_first (prefix strict_store) k = sid \<and> parsed_of strict_store d = Some s)"
    "\<forall>k\<in>set (concat (map snd ?pages)). \<forall>d s.
        stored (cstate ?w) k = Some d \<and> parsed_of strict_store d = Some s
        \<and> replace_first (prefix strict_store) k \<noteq> ''__proto__'' \<longrightarrow>
        replace_first (prefix strict_store) k \<in> dom (own sessions)"
    "logErrors strict_store \<longrightarrow>
        (\<forall>k\<in>set (concat (map snd ?pages)). \<forall>d.
           stored (cstate ?w) k = Some d \<and> parsed_of strict_store d = None \<longrightarrow>
           WarnInvalid k \<in> set (console p))"
    by auto
  have pf: "prefix strict_store = ''sess:''" "logErrors strict_store"
    by (simp_all add: strict_store_def bare_store_def)
  from p(5) have "''a'' \<in> dom (own sessions)" by (simp add: cs junk_facts pf)
  moreover from p(4) have "\<forall>sid s. own sessions sid = Some s \<longrightarrow> sid = ''a''"
    by (auto simp: cs junk_facts pf)
  ultimately have d: "dom (own sessions) = {''a''}" by auto
  from p(6) have l: "WarnInvalid ''sess:b'' \<in> set (console p)" by (simp add: cs junk_facts pf)
  have e: "events p = []" using p(3) by (simp add: fresh_def)
  let ?ws = "fresh scan_down_double :: (double, string sessions) world"
  let ?wm = "fresh mget_down_double :: (double, string sessions) world"
  let ?e = "Error ''connection closed''"
  let ?st = "strict_listened_store"
  have hs: "error_listener ?st
      \<and> (\<forall>p\<in>set ([] :: (cursor \<times> string list) list). \<not> isCursorFinished (fst p))
      \<and> d_pages (cstate ?ws) = [] @ ?pages
      \<and> (\<forall>x. d_fail (cstate ?ws) x =
           (if x = CScan (last (initial_cursor (double_client False) # map fst []))
                     (prefix ?st @ ''*'') (scanCount ?st) then Some ?e else None))
      \<and> fresh_call ?ws \<and> ((None :: (double, string sessions) callback option) = None \<or> None = Some record_cb)"
    by (simp add: fresh_def scan_down_double_def junk_double_def empty_double_def fresh_call_def
          initial_cursor_def double_client_def strict_listened_store_def strict_store_def bare_store_def)
  from all_skips_unparsable [where pre = "[]" and w = ?ws and rest = ?pages and cbo = None
         and st = ?st and cluster = False and e = ?e,
         THEN conjunct2, THEN conjunct1, rule_format, OF hs]
  have s: "\<exists>q. all_op ?st (double_client False) None ?ws = Some q
           \<and> settled q = Some (Rejected ?e)" by auto
  have hm: "error_listener ?st
      \<and> (\<forall>p\<in>set ([] :: (cursor \<times> string list) list). \<not> isCursorFinished (fst p))
      \<and> d_pages (cstate ?wm) = [] @ (StringCursor ''0'', [''sess:a'', ''sess:b'']) # []
      \<and> 0 * MAX_BATCH_SIZE < length [''sess:a'', ''sess:b'']
      \<and> (\<forall>x. d_fail (cstate ?wm) x =
           (if x = CMget (take MAX_BATCH_SIZE (drop (0 * MAX_BATCH_SIZE) [''sess:a'', ''sess:b'']))
            then Some ?e else None))
      \<and> fresh_call ?wm \<and> ((None :: (double, string sessions) callback option) = None \<or> None = Some record_cb)"
    by (simp add: fresh_def mget_down_double_def junk_double_def empty_double_def fresh_call_def
          MAX_BATCH_SIZE_def strict_listened_store_def)
  from all_skips_unparsable [where pre = "[]" and w = ?wm and rest = "[]" and cbo = None
         and c = "StringCursor ''0''" and ks = "[''sess:a'', ''sess:b'']" and j = 0
         and st = ?st and cluster = False and e = ?e,
         THEN conjunct2, THEN conjunct2, rule_format, OF hm]
  have m: "\<exists>q. all_op ?st (double_client False) None ?wm = Some q
           \<and> settled q = Some (Rejected ?e)" by auto
  from p(1,2) d l e s m show ?thesis by blast
qed
end
